theory Spec2Isabelle
  imports Main "HOL-Library.Monad_Syntax"
begin

section \<open>Characters and constants\<close>

text \<open>
  Bytes of a file and code units of a JavaScript string are both modelled as \<open>char\<close>;
  a text line is kept in its UTF-8 form, so \<open>Buffer.toString("utf8", a, b)\<close> is the
  slice of bytes itself. The three characters the program tests for:
\<close>

definition quote :: char where "quote = CHR 0x22"
definition LF :: char where "LF = CHR 0x0A"
definition CR :: char where "CR = CHR 0x0D"

text \<open>\<open>const BUF_SIZE = 8092\<close>\<close>

definition BUF_SIZE :: nat where "BUF_SIZE = 8092"

section \<open>JavaScript string primitives used by \<open>processLine\<close>\<close>

text \<open>
  Indices are JavaScript numbers holding integers, with \<open>-1\<close> for "not found"; they
  are modelled as \<open>int\<close>. \<open>indexOf\<close> clamps its start position into the string,
  \<open>slice\<close> and \<open>substr\<close> count a negative position from the end and clamp the
  rest, as the language defines them.
\<close>

fun scan_from :: "string \<Rightarrow> char \<Rightarrow> nat \<Rightarrow> int" where
  "scan_from [] c k = - 1"
| "scan_from (x # xs) c k = (if x = c then int k else scan_from xs c (Suc k))"

definition indexOf :: "string \<Rightarrow> char \<Rightarrow> int \<Rightarrow> int" where
  "indexOf s c position =
     (let k = nat (min (max position 0) (int (length s)))
      in scan_from (drop k s) c k)"

definition slice :: "string \<Rightarrow> int \<Rightarrow> int \<Rightarrow> string" where
  "slice s a b =
     (let len = int (length s);
          from = (if a < 0 then max (len + a) 0 else min a len);
          to = (if b < 0 then max (len + b) 0 else min b len)
      in take (nat (to - from)) (drop (nat from) s))"

definition substr :: "string \<Rightarrow> int \<Rightarrow> int \<Rightarrow> string" where
  "substr s start n =
     (let len = int (length s);
          from = (if start < 0 then max (len + start) 0 else min start len);
          cnt = min (max n 0) (len - from)
      in take (nat cnt) (drop (nat from) s))"

definition closing_quote :: "string \<Rightarrow> int \<Rightarrow> int" where
  "closing_quote line start =
     (if start > - 1 \<and> start < int (length line) - 1
      then indexOf line quote (start + 1) else - 1)"

definition reverse_pair :: "string \<Rightarrow> int \<Rightarrow> int \<Rightarrow> string" where
  "reverse_pair line start endq =
     (let str = slice line (start + 1) endq;
          str = rev str
      in substr line 0 (start + 1) @ str @ substr line endq (int (length line) - endq))"

text \<open>Facts about these primitives that the termination of the loop below rests on.\<close>

lemma slice_nonneg:
  "0 \<le> a \<Longrightarrow> 0 \<le> b \<Longrightarrow> slice s a b = take (nat (b - a)) (drop (nat a) s)"
  by (auto simp: slice_def Let_def min_def)

lemma substr_nonneg:
  "0 \<le> a \<Longrightarrow> substr s a n = take (nat n) (drop (nat a) s)"
  by (auto simp: substr_def Let_def min_def max_def)

lemma reverse_pair_nat:
  "s < e \<Longrightarrow> reverse_pair line (int s) (int e)
     = take (Suc s) line @ rev (take (e - Suc s) (drop (Suc s) line)) @ drop e line"
proof -
  assume se: "s < e"
  have a: "slice line (int s + 1) (int e) = take (nat (int e - (int s + 1))) (drop (nat (int s + 1)) line)"
    by (rule slice_nonneg) simp_all
  have b: "substr line 0 (int s + 1) = take (nat (int s + 1)) (drop (nat 0) line)"
    by (rule substr_nonneg) simp
  have c: "substr line (int e) (int (length line) - int e)
      = take (nat (int (length line) - int e)) (drop (nat (int e)) line)"
    by (rule substr_nonneg) simp
  have n1: "nat (int s + 1) = Suc s" by simp
  have n2: "nat (int e - (int s + 1)) = e - Suc s" by simp
  have n3: "nat (int (length line) - int e) = length line - e" by simp
  show ?thesis
    unfolding reverse_pair_def Let_def a b c n1 n2 n3 by simp
qed

lemma length_reverse_pair:
  assumes "- 1 < start" and "start < endq"
  shows "length (reverse_pair line start endq) = length line"
proof -
  obtain s where s: "start = int s"
    using assms(1) by (metis nonneg_int_cases zless_imp_add1_zle add.commute uminus_add_conv_diff diff_self)
  obtain e where e: "endq = int e"
    using assms s by (metis nonneg_int_cases less_le_not_le of_nat_0_le_iff order_trans linear)
  from assms s e have "s < e" by simp
  then show ?thesis
    unfolding s e by (auto simp: reverse_pair_nat min_def)
qed

lemma scan_from_range:
  "scan_from xs c k = - 1 \<or> (int k \<le> scan_from xs c k \<and> scan_from xs c k < int (k + length xs))"
proof (induction xs arbitrary: k)
  case Nil
  show ?case by simp
next
  case (Cons x xs)
  from Cons [of "Suc k"] show ?case by auto
qed

lemma indexOf_range:
  assumes "0 \<le> p"
  shows "indexOf s c p = - 1 \<or> (p \<le> indexOf s c p \<and> indexOf s c p < int (length s))"
proof (cases "p \<le> int (length s)")
  case True
  with assms have k: "nat (min (max p 0) (int (length s))) = nat p" by simp
  from True assms have "nat p + length (drop (nat p) s) = length s" by simp
  with scan_from_range [of "drop (nat p) s" c "nat p"] assms
  show ?thesis
    unfolding indexOf_def Let_def k by auto
next
  case False
  with assms have k: "nat (min (max p 0) (int (length s))) = length s" by simp
  show ?thesis
    unfolding indexOf_def Let_def k by simp
qed

section \<open>\<open>processLine\<close>\<close>

text \<open>
  The \<open>while\<close> loop of \<open>processLine\<close>: as long as an opening quote at \<open>start\<close> and
  a closing quote at \<open>endq\<close> exist, the text between them is reversed in place
  (\<open>reverse_pair\<close>), and the search goes on behind the closing quote.
  \<open>closing_quote\<close> is the conditional expression that computes \<open>end\<close>.
\<close>

function reverse_quoted :: "string \<Rightarrow> int \<Rightarrow> int \<Rightarrow> string" where
  "reverse_quoted line start endq =
     (if start > - 1 \<and> endq > start then
        (let line' = reverse_pair line start endq;
             start' = indexOf line' quote (endq + 1);
             endq' = closing_quote line' start'
         in reverse_quoted line' start' endq')
      else line)"
  by pat_completeness auto
termination
proof (relation "measure (\<lambda>(line, start, endq).
         if start > - 1 \<and> endq > start then Suc (length line - nat start) else 0)", goal_cases)
  case 1
  show ?case by simp
next
  case (2 line start endq line' start' endq')
  from 2(1) have c1: "- 1 < start" and c2: "start < endq" by simp_all
  have len: "length line' = length line"
    unfolding 2(2) using c1 c2 by (rule length_reverse_pair)
  have "0 \<le> endq + 1" using c1 c2 by arith
  from indexOf_range [OF this, of line' quote]
  have r: "start' = - 1 \<or> (endq + 1 \<le> start' \<and> start' < int (length line'))"
    unfolding 2(3) [symmetric] .
  show ?case
  proof (cases "- 1 < start' \<and> start' < endq'")
    case True
    with r have "endq + 1 \<le> start'" and "start' < int (length line')" by simp_all
    with c1 c2 len have "length line' - nat start' < length line - nat start" by linarith
    with True c1 c2 show ?thesis by simp
  next
    case False
    with c1 c2 show ?thesis by auto
  qed
qed


definition processLine :: "string \<Rightarrow> string" where
  "processLine line =
     (let start = indexOf line quote 0;
          endq = closing_quote line start
      in reverse_quoted line start endq @ [LF])"


declare reverse_quoted.simps [simp del]

section \<open>The reader: \<open>ReadFileAsync\<close>\<close>

text \<open>
  The object's fields keep their names (with \<open>r_\<close> for the leading underscore). The
  buffer is \<open>None\<close> once \<open>close()\<close> has set it to \<open>null\<close>, and otherwise a
  function from indices to bytes of which only the indices below \<open>BUF_SIZE\<close> exist.
  What the object does to the outside world is recorded in the same record:
  \<^item> \<open>listeners\<close>: whether a listener for \<open>"line"\<close> is registered (the object is an
    \<open>EventEmitter\<close>);
  \<^item> \<open>nextTicks\<close>: the callbacks handed to \<open>process.nextTick\<close>, oldest first;
  \<^item> \<open>pending_reads\<close>: the \<open>fs.read\<close> calls that have not called back yet;
  \<^item> \<open>closed_fds\<close>: the descriptors handed to \<open>fs.close\<close>;
  \<^item> \<open>emitted\<close>: every call \<open>emit("line", err, eof, line)\<close>, as the triple of its
    arguments; \<open>delivered\<close>: those of them made while a listener was registered.
\<close>

datatype error = AlreadyInCourse | FileClosed | LineTooLarge | DiskError nat

text \<open>
  The three errors the reader creates itself (\<open>"ReadFileAsync read operation already in
  course"\<close>, \<open>"ReadFileAsync file is closed"\<close>, \<open>"The file has a line larger than the
  buffer, consider increasing BUF_SIZE"\<close>) and the error object \<open>fs.read\<close> passes to its
  callback, of which only a number is kept.
\<close>

type_synonym emission = "error option \<times> bool \<times> string"

datatype tick = EmitLine string | RemoveAllListeners

record read_request =
  rq_offset :: nat
  rq_length :: nat
  rq_position :: nat

record state =
  r_fd :: nat
  r_buffer :: "(nat \<Rightarrow> char) option"
  r_end :: nat
  r_pos :: nat
  r_eof :: bool
  r_reading :: bool
  r_readPointer :: nat
  listeners :: bool
  nextTicks :: "tick list"
  pending_reads :: "read_request list"
  closed_fds :: "nat list"
  emitted :: "emission list"
  delivered :: "emission list"

text \<open>
  The constructor. \<open>new Buffer(BUF_SIZE)\<close> does not say what the fresh buffer holds,
  so its contents \<open>mem\<close> are a parameter. \<open>on_line\<close> is \<open>fileReader.on("line", ...)\<close>,
  and \<open>started\<close> the reader as \<open>rewriteFile\<close> sets it up before its first \<open>next()\<close>.
\<close>

definition ReadFileAsync :: "nat \<Rightarrow> (nat \<Rightarrow> char) \<Rightarrow> state" where
  "ReadFileAsync fd mem =
     \<lparr>r_fd = fd, r_buffer = Some mem, r_end = 0, r_pos = 0, r_eof = False,
      r_reading = False, r_readPointer = 0, listeners = False, nextTicks = [],
      pending_reads = [], closed_fds = [], emitted = [], delivered = []\<rparr>"

definition on_line :: "state \<Rightarrow> state" where
  "on_line s = s\<lparr>listeners := True\<rparr>"

definition started :: "nat \<Rightarrow> (nat \<Rightarrow> char) \<Rightarrow> state" where
  "started fd mem = on_line (ReadFileAsync fd mem)"

text \<open>
  Indexing a \<open>Buffer\<close>: a read outside it gives \<open>undefined\<close> (\<open>None\<close>), a write
  outside it is ignored, and \<open>undefined\<close> is stored as the byte 0. \<open>toString\<close> clamps
  its end to the buffer and is empty when the end is not behind the start.
\<close>

definition buf_get :: "(nat \<Rightarrow> char) \<Rightarrow> nat \<Rightarrow> char option" where
  "buf_get b i = (if i < BUF_SIZE then Some (b i) else None)"

definition buf_set :: "(nat \<Rightarrow> char) \<Rightarrow> nat \<Rightarrow> char option \<Rightarrow> (nat \<Rightarrow> char)" where
  "buf_set b i v =
     (if i < BUF_SIZE then b(i := (case v of Some c \<Rightarrow> c | None \<Rightarrow> CHR 0x00)) else b)"

definition toString :: "(nat \<Rightarrow> char) \<Rightarrow> nat \<Rightarrow> nat \<Rightarrow> string" where
  "toString b start stop = map b [start ..< min stop BUF_SIZE]"

text \<open>\<open>this.emit("line", err, eof, line)\<close>: recorded, and delivered if someone listens.\<close>

definition emit :: "emission \<Rightarrow> state \<Rightarrow> state" where
  "emit e s =
     s\<lparr>emitted := emitted s @ [e],
       delivered := (if listeners s then delivered s @ [e] else delivered s)\<rparr>"

text \<open>\<open>close()\<close>\<close>

definition close :: "state \<Rightarrow> state" where
  "close s =
     (if r_buffer s \<noteq> None then
        s\<lparr>closed_fds := closed_fds s @ [r_fd s],
          r_buffer := None,
          r_reading := False,
          nextTicks := nextTicks s @ [RemoveAllListeners]\<rparr>
      else s)"

text \<open>
  \<open>_refill(callback)\<close>: the loop \<open>while (this._pos < this._end) this._buffer[i++] =
  this._buffer[this._pos++]\<close> is \<open>compact\<close>, on the buffer \<open>b\<close>, the end \<open>e\<close>, the
  target index \<open>i\<close> and the position \<open>p\<close>. Then \<open>fs.read\<close> is called for the free
  part of the buffer. Without a buffer the method throws (\<open>None\<close>), as does \<open>fs.read\<close>
  for a negative length.
\<close>

function compact :: "(nat \<Rightarrow> char) \<Rightarrow> nat \<Rightarrow> nat \<Rightarrow> nat \<Rightarrow> (nat \<Rightarrow> char) \<times> nat \<times> nat" where
  "compact b e i p =
     (if p < e then compact (buf_set b i (buf_get b p)) e (Suc i) (Suc p) else (b, i, p))"
  by pat_completeness auto
termination
  by (relation "measure (\<lambda>(b, e, i, p). e - p)") auto

declare compact.simps [simp del]

definition refill :: "state \<Rightarrow> state option" where
  "refill s =
     (case r_buffer s of
        None \<Rightarrow> None
      | Some b \<Rightarrow>
          (case compact b (r_end s) 0 (r_pos s) of
             (b', i, p) \<Rightarrow>
               if BUF_SIZE < i then None
               else Some (s\<lparr>r_buffer := Some b', r_pos := 0, r_end := i,
                          pending_reads := pending_reads s @
                            [\<lparr>rq_offset = i, rq_length = BUF_SIZE - i,
                              rq_position = r_readPointer s\<rparr>]\<rparr>)))"

text \<open>
  \<open>_find_eol()\<close>: the index of the first line feed in \<open>[_pos, _end)\<close>, or where the
  scan stopped. It throws when it has to look into a buffer that is \<open>null\<close>.
\<close>

function scan_eol :: "(nat \<Rightarrow> char) \<Rightarrow> nat \<Rightarrow> nat \<Rightarrow> nat" where
  "scan_eol b e i =
     (if i < e then (if buf_get b i = Some LF then i else scan_eol b e (Suc i)) else i)"
  by pat_completeness auto
termination
  by (relation "measure (\<lambda>(b, e, i). e - i)") auto

declare scan_eol.simps [simp del]

definition find_eol :: "state \<Rightarrow> nat option" where
  "find_eol s =
     (case r_buffer s of
        Some b \<Rightarrow> Some (scan_eol b (r_end s) (r_pos s))
      | None \<Rightarrow> if r_pos s < r_end s then None else Some (r_pos s))"

text \<open>
  \<open>_emit_line(eol)\<close>: at the end of the file with nothing left, the end-of-file event
  and \<open>close()\<close>; otherwise the position moves behind \<open>eol\<close>, a carriage return just
  before \<open>eol\<close> is left out, and the line is emitted from \<open>process.nextTick\<close>.
\<close>

definition emit_line :: "nat \<Rightarrow> state \<Rightarrow> state option" where
  "emit_line eol s0 =
     (let begin = r_pos s0;
          s = s0\<lparr>r_reading := False\<rparr>
      in if r_eof s \<and> begin = eol then Some (close (emit (None, True, []) s))
         else
           (case r_buffer s of
              None \<Rightarrow> None
            | Some b \<Rightarrow>
                (let eol' = (if eol \<noteq> 0 \<and> buf_get b (eol - 1) = Some CR then eol - 1 else eol);
                     line = toString b begin eol'
                 in Some (s\<lparr>r_pos := Suc eol, nextTicks := nextTicks s @ [EmitLine line]\<rparr>))))"

text \<open>
  The function \<open>loop\<close> inside \<open>next()\<close>, up to the point where it returns: it has
  emitted a line or the capacity error, or has started a read. The callback it hands to
  \<open>_refill\<close> is \<open>refill_callback\<close>, which calls \<open>loop\<close> again when bytes have arrived.
\<close>

definition loop :: "state \<Rightarrow> state option" where
  "loop s =
     (case find_eol s of
        None \<Rightarrow> None
      | Some eol \<Rightarrow>
          if eol = r_end s then
            (if r_pos s = 0 \<and> r_end s = BUF_SIZE
             then Some (close (emit (Some LineTooLarge, False, []) s))
             else refill s)
          else emit_line eol s)"

definition refill_callback :: "error option \<Rightarrow> nat \<Rightarrow> state \<Rightarrow> state option" where
  "refill_callback err fetched s =
     (case err of
        Some e \<Rightarrow> Some (close (emit (Some e, False, []) s))
      | None \<Rightarrow>
          if r_reading s then
            (if fetched = 0 then
               (let s' = s\<lparr>r_eof := True\<rparr> in emit_line (r_end s') s')
             else loop (s\<lparr>r_end := r_end s + fetched,
                          r_readPointer := r_readPointer s + fetched\<rparr>))
          else Some s)"

text \<open>\<open>next()\<close> (\<open>next\<close> is a keyword of Isabelle, hence the longer name).\<close>

definition reader_next :: "state \<Rightarrow> state option" where
  "reader_next s =
     (if r_reading s then Some (close (emit (Some AlreadyInCourse, False, []) s))
      else if r_eof s then Some (close (emit (None, True, []) s))
      else if r_buffer s = None then Some (emit (Some FileClosed, False, []) s)
      else loop (s\<lparr>r_reading := True\<rparr>))"

section \<open>The runtime around the reader\<close>

text \<open>
  A pending \<open>fs.read\<close> ends with an error or with bytes, at most as many as were asked
  for; the bytes are in the buffer (if the reader still has it) when the callback runs.
  A callback of \<open>process.nextTick\<close> emits a line or removes the listeners.
\<close>

datatype read_outcome = Failed error | Fetched string

fun store :: "(nat \<Rightarrow> char) \<Rightarrow> nat \<Rightarrow> string \<Rightarrow> (nat \<Rightarrow> char)" where
  "store b i [] = b"
| "store b i (c # cs) = store (b(i := c)) (Suc i) cs"

definition complete_read :: "read_outcome \<Rightarrow> state \<Rightarrow> state option" where
  "complete_read out s =
     (case pending_reads s of
        [] \<Rightarrow> None
      | rq # rest \<Rightarrow>
          (let s1 = s\<lparr>pending_reads := rest\<rparr>
           in case out of
                Failed e \<Rightarrow> refill_callback (Some e) 0 s1
              | Fetched bytes \<Rightarrow>
                  (let data = take (rq_length rq) bytes;
                       s2 = s1\<lparr>r_buffer := map_option (\<lambda>b. store b (rq_offset rq) data) (r_buffer s1)\<rparr>
                   in refill_callback None (length data) s2)))"

definition run_tick :: "state \<Rightarrow> state option" where
  "run_tick s =
     (case nextTicks s of
        [] \<Rightarrow> None
      | t # ts \<Rightarrow>
          (let s1 = s\<lparr>nextTicks := ts\<rparr>
           in Some (case t of
                      EmitLine line \<Rightarrow> emit (None, False, line) s1
                    | RemoveAllListeners \<Rightarrow> s1\<lparr>listeners := False\<rparr>)))"

text \<open>
  What can happen to a reader, one thing at a time: its user calls \<open>next()\<close> or
  \<open>close()\<close>, the oldest callback of \<open>process.nextTick\<close> runs, or the oldest pending
  read calls back. Node runs all callbacks of \<open>process.nextTick\<close> before it returns to
  the event loop, so a read can only call back when none is left. The listener is
  passive: what it does in reaction to an event (the listener of \<open>rewriteFiles\<close> calls
  \<open>next()\<close> from the callback of its write) is an action of its own. \<open>step\<close> and \<open>run\<close>
  give \<open>None\<close> for an action that cannot happen in the state, or that throws.
\<close>

datatype action = CallNext | CallClose | Tick | ReadDone read_outcome

fun step :: "action \<Rightarrow> state \<Rightarrow> state option" where
  "step CallNext s = reader_next s"
| "step CallClose s = Some (close s)"
| "step Tick s = run_tick s"
| "step (ReadDone out) s = (if nextTicks s = [] then complete_read out s else None)"

fun run :: "action list \<Rightarrow> state \<Rightarrow> state option" where
  "run [] s = Some s"
| "run (a # as) s = (case step a s of None \<Rightarrow> None | Some s' \<Rightarrow> run as s')"

section \<open>The driver: \<open>rewriteFiles\<close>\<close>

text \<open>
  For one file: the write pointer, the reader, the \<open>fs.write\<close> calls made so far (the
  text and the position) and what went to the console. \<open>line_listener\<close> is the
  listener registered for \<open>"line"\<close>, \<open>write_callback\<close> the callback of \<open>fs.write\<close>
  (\<open>err\<close> and \<open>written\<close> are its arguments), \<open>rewriteFile\<close> the callback of
  \<open>fs.open\<close> when the file has been opened. \<open>driver_step\<close> lets one thing happen to the
  reader and hands the events delivered by it to the listener.
\<close>

datatype console_line = LoggedError error | LoggedEof

record driver =
  writePointer :: nat
  fileReader :: state
  fs_writes :: "(string \<times> nat) list"
  console :: "console_line list"

definition line_listener :: "emission \<Rightarrow> driver \<Rightarrow> driver" where
  "line_listener ev d =
     (case ev of
        (err, eof, line) \<Rightarrow>
          (case err of
             Some e \<Rightarrow> d\<lparr>console := console d @ [LoggedError e]\<rparr>
           | None \<Rightarrow>
               if eof then d\<lparr>console := console d @ [LoggedEof]\<rparr>
               else d\<lparr>fs_writes := fs_writes d @ [(processLine line, writePointer d)]\<rparr>))"

definition write_callback :: "error option \<Rightarrow> nat \<Rightarrow> driver \<Rightarrow> driver option" where
  "write_callback err written d =
     (let d' = (if err = None then d\<lparr>writePointer := writePointer d + written\<rparr> else d)
      in case reader_next (fileReader d') of
           None \<Rightarrow> None
         | Some s \<Rightarrow> Some (d'\<lparr>fileReader := s\<rparr>))"

definition rewriteFile :: "nat \<Rightarrow> (nat \<Rightarrow> char) \<Rightarrow> driver option" where
  "rewriteFile fd mem =
     (let d = \<lparr>writePointer = 0, fileReader = on_line (ReadFileAsync fd mem),
               fs_writes = [], console = []\<rparr>
      in case reader_next (fileReader d) of
           None \<Rightarrow> None
         | Some s \<Rightarrow> Some (d\<lparr>fileReader := s\<rparr>))"

definition driver_step :: "action \<Rightarrow> driver \<Rightarrow> driver option" where
  "driver_step a d =
     (case step a (fileReader d) of
        None \<Rightarrow> None
      | Some s \<Rightarrow>
          Some (foldl (\<lambda>d' ev. line_listener ev d') (d\<lparr>fileReader := s\<rparr>)
                  (drop (length (delivered (fileReader d))) (delivered s))))"

text \<open>
  What happens to a driver, one thing at a time: something happens to its reader, or a
  write calls back.
\<close>

datatype driver_action = Reader action | WriteDone "error option" nat

fun driver_act :: "driver_action \<Rightarrow> driver \<Rightarrow> driver option" where
  "driver_act (Reader a) d = driver_step a d"
| "driver_act (WriteDone err written) d = write_callback err written d"

fun drive :: "driver_action list \<Rightarrow> driver \<Rightarrow> driver option" where
  "drive [] d = Some d"
| "drive (a # as) d = (case driver_act a d of None \<Rightarrow> None | Some d' \<Rightarrow> drive as d')"

section \<open>A consumer that follows the protocol\<close>

text \<open>
  The file on disk is a byte string. A read at position \<open>p\<close> returns the bytes from
  \<open>p\<close> on: at least one when there is one, and otherwise as many as the operating
  system likes, which \<open>chunk p\<close> stands for (the request's length caps the result in
  \<open>complete_read\<close>). An empty result therefore means end of file.

  \<open>consume\<close> is the event loop with a consumer that asks for the next line after each
  line it has been given, and stops asking on an error or an end of file, as the
  listener in \<open>rewriteFiles\<close> does: callbacks of \<open>process.nextTick\<close> run first, then
  a pending read completes, then the consumer's pending \<open>next()\<close> is called; the
  loop ends when nothing is left to do. \<open>None\<close> stands for a loop that never ends or
  a \<open>TypeError\<close> on the way.
\<close>

definition fs_read :: "(nat \<Rightarrow> nat) \<Rightarrow> string \<Rightarrow> read_request \<Rightarrow> string" where
  "fs_read chunk file rq = take (Suc (chunk (rq_position rq))) (drop (rq_position rq) file)"

fun is_line_tick :: "tick \<Rightarrow> bool" where
  "is_line_tick (EmitLine line) = True"
| "is_line_tick RemoveAllListeners = False"

partial_function (option) consume :: "(nat \<Rightarrow> nat) \<Rightarrow> string \<Rightarrow> bool \<Rightarrow> state \<Rightarrow> state option" where
  "consume chunk file ask s =
     (case nextTicks s of
        t # ts \<Rightarrow>
          (case run_tick s of
             None \<Rightarrow> None
           | Some s' \<Rightarrow> consume chunk file (ask \<or> (listeners s \<and> is_line_tick t)) s')
      | [] \<Rightarrow>
          (case pending_reads s of
             rq # rqs \<Rightarrow>
               (case complete_read (Fetched (fs_read chunk file rq)) s of
                  None \<Rightarrow> None
                | Some s' \<Rightarrow> consume chunk file ask s')
           | [] \<Rightarrow>
               if ask then
                 (case reader_next s of
                    None \<Rightarrow> None
                  | Some s' \<Rightarrow> consume chunk file False s')
               else Some s))"

declare consume.simps [code]

section \<open>Inputs used in the examples\<close>

text \<open>A buffer that is all zero bytes, and a disk that hands out one byte per read.\<close>

definition zeroed :: "nat \<Rightarrow> char" where
  "zeroed i = CHR 0x00"

definition bytewise :: "nat \<Rightarrow> nat" where
  "bytewise p = 0"

section \<open>What the specification expects, written independently of the code\<close>






text \<open>
  The lines of a file: \<open>terminated_lines\<close> are the runs of bytes in front of each line
  feed, in order, and \<open>trailing_chunk\<close> is what follows the last line feed. The text of
  a line is its bytes without a carriage return at their end (\<open>strip_cr\<close>).
\<close>

definition strip_cr :: "string \<Rightarrow> string" where
  "strip_cr l = (if l \<noteq> [] \<and> last l = CR then butlast l else l)"

function terminated_lines :: "string \<Rightarrow> string list" where
  "terminated_lines s =
     (if LF \<in> set s
      then takeWhile (\<lambda>c. c \<noteq> LF) s # terminated_lines (tl (dropWhile (\<lambda>c. c \<noteq> LF) s))
      else [])"
  by pat_completeness auto
termination
proof (relation "measure length", goal_cases)
  case 1
  show ?case by simp
next
  case (2 s)
  then have "dropWhile (\<lambda>c. c \<noteq> LF) s \<noteq> []" by simp
  then have "length (tl (dropWhile (\<lambda>c. c \<noteq> LF) s)) < length (dropWhile (\<lambda>c. c \<noteq> LF) s)"
    by (cases "dropWhile (\<lambda>c. c \<noteq> LF) s") simp_all
  also have "\<dots> \<le> length s" by (rule length_dropWhile_le)
  finally show ?case by simp
qed

function trailing_chunk :: "string \<Rightarrow> string" where
  "trailing_chunk s =
     (if LF \<in> set s then trailing_chunk (tl (dropWhile (\<lambda>c. c \<noteq> LF) s)) else s)"
  by pat_completeness auto
termination
proof (relation "measure length", goal_cases)
  case 1
  show ?case by simp
next
  case (2 s)
  then have "dropWhile (\<lambda>c. c \<noteq> LF) s \<noteq> []" by simp
  then have "length (tl (dropWhile (\<lambda>c. c \<noteq> LF) s)) < length (dropWhile (\<lambda>c. c \<noteq> LF) s)"
    by (cases "dropWhile (\<lambda>c. c \<noteq> LF) s") simp_all
  also have "\<dots> \<le> length s" by (rule length_dropWhile_le)
  finally show ?case by simp
qed

text \<open>
  The events a reader should emit for the bytes \<open>rem\<close> that are still to be consumed:
  as long as a line feed is among the first \<open>BUF_SIZE\<close> bytes, a line and then the
  events of what follows the line feed; without one, the capacity error if there are
  \<open>BUF_SIZE\<close> bytes or more, and otherwise the remaining bytes as a last line, if there
  are any, and the end of the file.
\<close>

function expected :: "string \<Rightarrow> emission list" where
  "expected rem =
     (if LF \<in> set (take BUF_SIZE rem) then
        (None, False, strip_cr (takeWhile (\<lambda>c. c \<noteq> LF) rem)) #
          expected (tl (dropWhile (\<lambda>c. c \<noteq> LF) rem))
      else if BUF_SIZE \<le> length rem then [(Some LineTooLarge, False, [])]
      else if rem = [] then [(None, True, [])]
      else [(None, False, strip_cr rem), (None, True, [])])"
  by pat_completeness auto
termination
proof (relation "measure length", goal_cases)
  case 1
  show ?case by simp
next
  case (2 rem)
  then have "LF \<in> set rem" by (auto dest: in_set_takeD)
  then have "dropWhile (\<lambda>c. c \<noteq> LF) rem \<noteq> []" by simp
  then have "length (tl (dropWhile (\<lambda>c. c \<noteq> LF) rem)) < length (dropWhile (\<lambda>c. c \<noteq> LF) rem)"
    by (cases "dropWhile (\<lambda>c. c \<noteq> LF) rem") simp_all
  also have "\<dots> \<le> length rem" by (rule length_dropWhile_le)
  finally show ?case by simp
qed

section \<open>Predicates used in the proofs\<close>

text \<open>
  On states a reader can reach. \<open>wellformed\<close>: the end of the window is inside the
  buffer; the position is at most the end, or one behind it once the end of the file
  has been seen; while a fetch is under way the reader is open, not at the end of the
  file, and exactly one read is pending, for no more bytes than are free behind the
  window; an open reader that is not fetching has no read pending. \<open>attached\<close>: an
  open reader has its listener and no removal of listeners is scheduled; a closed one
  has lost its listener or the removal is scheduled. \<open>shut\<close>: closed before the end of
  the file was seen.
\<close>

definition wellformed :: "state \<Rightarrow> bool" where
  "wellformed s \<longleftrightarrow>
     r_end s \<le> BUF_SIZE \<and>
     r_pos s \<le> (if r_eof s then Suc (r_end s) else r_end s) \<and>
     (if r_reading s
      then r_buffer s \<noteq> None \<and> \<not> r_eof s \<and>
           (\<exists>rq. pending_reads s = [rq] \<and> rq_length rq \<le> BUF_SIZE - r_end s)
      else r_buffer s = None \<or> pending_reads s = [])"

definition attached :: "state \<Rightarrow> bool" where
  "attached s \<longleftrightarrow>
     (if r_buffer s = None
      then \<not> listeners s \<or> RemoveAllListeners \<in> set (nextTicks s)
      else listeners s \<and> RemoveAllListeners \<notin> set (nextTicks s))"

definition shut :: "state \<Rightarrow> bool" where
  "shut s \<longleftrightarrow> r_buffer s = None \<and> \<not> r_eof s \<and> \<not> r_reading s"

text \<open>
  On the states \<open>consume\<close> passes through. \<open>window\<close> is the part of the buffer that is
  still to be scanned; in each of the four kinds of state below, \<open>rem\<close> is the window
  followed by the part of the file that has not been read. \<open>idle\<close>: waiting for
  \<open>next()\<close>; \<open>scanning\<close>: on entry to \<open>loop\<close>; \<open>fetching\<close>: a read is pending, the
  window starts the buffer and holds no line feed; \<open>lined\<close>: a line is about to be
  emitted. \<open>finishes\<close> says that \<open>consume\<close> ends in a closed reader with the given
  events and descriptors, \<open>completes\<close> that it ends having added the events expected for
  \<open>rem\<close>.
\<close>

definition window :: "state \<Rightarrow> string" where
  "window s = (case r_buffer s of Some b \<Rightarrow> map b [r_pos s ..< r_end s] | None \<Rightarrow> [])"

definition finishes ::
  "(nat \<Rightarrow> nat) \<Rightarrow> string \<Rightarrow> bool \<Rightarrow> state \<Rightarrow> emission list \<Rightarrow> emission list \<Rightarrow> nat list \<Rightarrow> bool" where
  "finishes chunk file ask s es ds cs \<longleftrightarrow>
     (\<exists>s'. consume chunk file ask s = Some s' \<and> emitted s' = es \<and> delivered s' = ds \<and>
           closed_fds s' = cs \<and> r_buffer s' = None)"

definition scanning :: "string \<Rightarrow> state \<Rightarrow> string \<Rightarrow> bool" where
  "scanning file s rem \<longleftrightarrow>
     r_buffer s \<noteq> None \<and> rem = window s @ drop (r_readPointer s) file \<and>
     r_pos s \<le> r_end s \<and> r_end s \<le> BUF_SIZE \<and> r_reading s \<and> \<not> r_eof s \<and>
     listeners s \<and> nextTicks s = [] \<and> pending_reads s = []"

definition idle :: "string \<Rightarrow> state \<Rightarrow> string \<Rightarrow> bool" where
  "idle file s rem \<longleftrightarrow>
     r_buffer s \<noteq> None \<and> rem = window s @ drop (r_readPointer s) file \<and>
     r_pos s \<le> r_end s \<and> r_end s \<le> BUF_SIZE \<and> \<not> r_reading s \<and> \<not> r_eof s \<and>
     listeners s \<and> nextTicks s = [] \<and> pending_reads s = []"

definition lined :: "string \<Rightarrow> state \<Rightarrow> string \<Rightarrow> string \<Rightarrow> bool" where
  "lined file s line rem \<longleftrightarrow>
     r_buffer s \<noteq> None \<and> rem = window s @ drop (r_readPointer s) file \<and>
     r_pos s \<le> r_end s \<and> r_end s \<le> BUF_SIZE \<and> \<not> r_reading s \<and> \<not> r_eof s \<and>
     listeners s \<and> nextTicks s = [EmitLine line] \<and> pending_reads s = []"

definition fetching :: "string \<Rightarrow> state \<Rightarrow> string \<Rightarrow> bool" where
  "fetching file s rem \<longleftrightarrow>
     r_buffer s \<noteq> None \<and> rem = window s @ drop (r_readPointer s) file \<and>
     LF \<notin> set (window s) \<and>
     r_pos s = 0 \<and> r_end s < BUF_SIZE \<and> r_reading s \<and> \<not> r_eof s \<and>
     listeners s \<and> nextTicks s = [] \<and>
     pending_reads s = [\<lparr>rq_offset = r_end s, rq_length = BUF_SIZE - r_end s,
                          rq_position = r_readPointer s\<rparr>]"

definition same_obs :: "state \<Rightarrow> state \<Rightarrow> bool" where
  "same_obs s s' \<longleftrightarrow>
     emitted s' = emitted s \<and> delivered s' = delivered s \<and> closed_fds s' = closed_fds s \<and>
     r_fd s' = r_fd s"

definition completes :: "(nat \<Rightarrow> nat) \<Rightarrow> string \<Rightarrow> bool \<Rightarrow> state \<Rightarrow> string \<Rightarrow> bool" where
  "completes chunk file ask s rem \<longleftrightarrow>
     finishes chunk file ask s (emitted s @ expected rem) (delivered s @ expected rem)
       (closed_fds s @ [r_fd s])"

definition line_event :: "string \<Rightarrow> emission" where
  "line_event l = (None, False, strip_cr l)"

declare terminated_lines.simps [simp del] trailing_chunk.simps [simp del] expected.simps [simp del]

section \<open>\<open>processLine\<close> does what the specification says\<close>











section \<open>\<open>close()\<close>\<close>

text \<open>
  Claim C9. \<open>close()\<close> is idempotent: a reader closed twice is in the state of the
  reader closed once. The first call on an open reader hands the descriptor to
  \<open>fs.close\<close> once and drops the buffer; a call on a closed reader changes nothing, so
  the descriptor is never handed over a second time.
\<close>

theorem close_idempotent:
  "close (close s) = close s \<and>
   r_buffer (close s) = None \<and>
   closed_fds (close s) = closed_fds s @ (if r_buffer s = None then [] else [r_fd s]) \<and>
   closed_fds (close (close s)) = closed_fds (close s)"
  by (simp add: close_def)

section \<open>The driver and a failing write\<close>

lemma close_open: "r_buffer s \<noteq> None \<Longrightarrow> close s = s\<lparr>closed_fds := closed_fds s @ [r_fd s],
          r_buffer := None, r_reading := False, nextTicks := nextTicks s @ [RemoveAllListeners]\<rparr>"
  by (simp add: close_def)

lemma reader_next_stays_open:
  assumes "reader_next s = Some s'"
    and "r_buffer s \<noteq> None" and "\<not> r_reading s" and "\<not> r_eof s"
    and "\<not> (r_pos s = 0 \<and> r_end s = BUF_SIZE)"
  shows "r_buffer s' \<noteq> None \<and> closed_fds s' = closed_fds s"
proof -
  let ?s = "s\<lparr>r_reading := True\<rparr>"
  from assms have l: "loop ?s = Some s'" by (simp add: reader_next_def)
  obtain b where b: "r_buffer s = Some b" using assms(2) by auto
  show ?thesis
  proof (cases "scan_eol b (r_end s) (r_pos s) = r_end s")
    case True
    with l b assms(5) have "refill ?s = Some s'"
      by (simp add: loop_def find_eol_def)
    then show ?thesis
      using b by (auto simp: refill_def split: prod.splits if_splits)
  next
    case False
    with l b have "emit_line (scan_eol b (r_end s) (r_pos s)) ?s = Some s'"
      by (simp add: loop_def find_eol_def)
    then show ?thesis
      using b assms(4) by (auto simp: emit_line_def Let_def)
  qed
qed

text \<open>
  Claim C3, as amended. An error of a write leaves the write pointer at its last
  successful position and is otherwise ignored: nothing is written or logged for it,
  the driver calls \<open>next()\<close> exactly as after a successful write (the two outcomes
  differ in the write pointer only), and the error does not close the reader: a reader
  that was open, idle and not at a full buffer is still open afterwards.
\<close>

theorem write_error_not_fatal:
  assumes "write_callback (Some e) written d = Some d'"
  shows "writePointer d' = writePointer d \<and>
         fs_writes d' = fs_writes d \<and>
         reader_next (fileReader d) = Some (fileReader d') \<and>
         write_callback None written d = Some (d'\<lparr>writePointer := writePointer d + written\<rparr>) \<and>
         (if r_buffer (fileReader d) \<noteq> None \<and> \<not> r_reading (fileReader d) \<and> \<not> r_eof (fileReader d) \<and>
             \<not> (r_pos (fileReader d) = 0 \<and> r_end (fileReader d) = BUF_SIZE)
          then r_buffer (fileReader d') \<noteq> None \<and>
               closed_fds (fileReader d') = closed_fds (fileReader d)
          else True)"
proof -
  from assms obtain s where s: "reader_next (fileReader d) = Some s" and d': "d' = d\<lparr>fileReader := s\<rparr>"
    by (auto simp: write_callback_def split: option.splits)
  have "write_callback None written d = Some (d'\<lparr>writePointer := writePointer d + written\<rparr>)"
    using s d' by (simp add: write_callback_def)
  moreover have "r_buffer (fileReader d') \<noteq> None \<and> closed_fds (fileReader d') = closed_fds (fileReader d)"
    if "r_buffer (fileReader d) \<noteq> None" "\<not> r_reading (fileReader d)" "\<not> r_eof (fileReader d)"
       "\<not> (r_pos (fileReader d) = 0 \<and> r_end (fileReader d) = BUF_SIZE)"
    using reader_next_stays_open [OF s that] d' by simp
  ultimately show ?thesis
    using s d' by simp
qed

text \<open>A driver whose first write fails: the pointer stays at 7, the reader reads on.\<close>

theorem write_error_not_fatal_witness:
  "map_option (\<lambda>d'. (writePointer d', r_buffer (fileReader d') = None, pending_reads (fileReader d')))
     (write_callback (Some (DiskError 5)) 2
        \<lparr>writePointer = 7, fileReader = started 3 (\<lambda>_. CHR 0x00), fs_writes = [], console = []\<rparr>)
   = Some (7, False, [\<lparr>rq_offset = 0, rq_length = BUF_SIZE, rq_position = 0\<rparr>])"
proof -
  let ?d = "\<lparr>writePointer = 7, fileReader = started 3 (\<lambda>_. CHR 0x00), fs_writes = [], console = []\<rparr>"
  have "reader_next (started 3 (\<lambda>_. CHR 0x00)) =
      Some ((started 3 (\<lambda>_. CHR 0x00))\<lparr>r_reading := True,
        pending_reads := [\<lparr>rq_offset = 0, rq_length = BUF_SIZE, rq_position = 0\<rparr>]\<rparr>)"
    by (simp add: reader_next_def started_def on_line_def ReadFileAsync_def loop_def find_eol_def
        scan_eol.simps refill_def compact.simps BUF_SIZE_def)
  then obtain d' where h: "write_callback (Some (DiskError 5)) 2 ?d = Some d'"
    and p: "pending_reads (fileReader d') = [\<lparr>rq_offset = 0, rq_length = BUF_SIZE, rq_position = 0\<rparr>]"
    by (simp add: write_callback_def)
  from write_error_not_fatal [OF h]
  have "writePointer d' = 7" and "r_buffer (fileReader d') \<noteq> None"
    by (simp_all add: started_def on_line_def ReadFileAsync_def BUF_SIZE_def)
  with h p show ?thesis by simp
qed

text \<open>
  Claim C3 as it is stated fails. The file holds the lines \<open>a\<close> and \<open>b\<close>; the driver
  is given \<open>a\<close> and its write fails. The reader is not closed, the next line is asked
  for, \<open>b\<close> is emitted and written too, at the position of the failed write.
\<close>

theorem write_error_counterexample:
  "map_option fs_writes
     (Option.bind (rewriteFile 3 zeroed)
        (drive [Reader (ReadDone (Fetched ''a\<newline>b\<newline>'')), Reader Tick,
                WriteDone (Some (DiskError 5)) 0, Reader Tick]))
   = Some [(''a\<newline>'', 0), (''b\<newline>'', 0)] \<and>
   map_option (closed_fds \<circ> fileReader)
     (Option.bind (rewriteFile 3 zeroed)
        (drive [Reader (ReadDone (Fetched ''a\<newline>b\<newline>'')), Reader Tick,
                WriteDone (Some (DiskError 5)) 0, Reader Tick]))
   = Some [] \<and>
   map_option (emitted \<circ> fileReader)
     (Option.bind (rewriteFile 3 zeroed)
        (drive [Reader (ReadDone (Fetched ''a\<newline>b\<newline>'')), Reader Tick,
                WriteDone (Some (DiskError 5)) 0, Reader Tick]))
   = Some [(None, False, ''a''), (None, False, ''b'')]"
  by code_simp

section \<open>What holds in every state a reader can reach\<close>

text \<open>The loops of \<open>_refill\<close> and \<open>_find_eol\<close>, as far as indices go.\<close>

lemma compact_result:
  "compact b e i p = (b', i', p') \<Longrightarrow> i' = i + (e - p) \<and> p' = max p e"
proof (induction b e i p rule: compact.induct)
  case (1 b e i p)
  show ?case
  proof (cases "p < e")
    case True
    with "1.prems" have "compact (buf_set b i (buf_get b p)) e (Suc i) (Suc p) = (b', i', p')"
      by (simp add: compact.simps [of b])
    from "1.IH" [OF True this] True show ?thesis by auto
  next
    case False
    with "1.prems" show ?thesis by (simp add: compact.simps [of b])
  qed
qed

lemma scan_eol_range: "i \<le> e \<Longrightarrow> i \<le> scan_eol b e i \<and> scan_eol b e i \<le> e"
proof (induction b e i rule: scan_eol.induct)
  case (1 b e i)
  show ?case
  proof (cases "i < e \<and> buf_get b i \<noteq> Some LF")
    case True
    then have "scan_eol b e i = scan_eol b e (Suc i)" by (simp add: scan_eol.simps [of b e i])
    with "1.IH" True show ?thesis by auto
  next
    case False
    with "1.prems" show ?thesis by (auto simp: scan_eol.simps [of b e i])
  qed
qed

lemma wellformed_emit [simp]: "wellformed (emit ev s) = wellformed s"
  by (simp add: wellformed_def emit_def)

lemma wellformed_close: "wellformed s \<Longrightarrow> wellformed (close s)"
  by (auto simp: wellformed_def close_def)

lemma wellformed_emit_line:
  assumes "emit_line eol s = Some s'"
    and "r_end s \<le> BUF_SIZE" and "pending_reads s = []" and "r_pos s \<le> r_end s"
    and "if r_eof s then eol = r_end s else eol < r_end s"
  shows "wellformed s'"
proof (cases "r_eof s \<and> r_pos s = eol")
  case True
  with assms have "s' = close (emit (None, True, []) (s\<lparr>r_reading := False\<rparr>))"
    by (simp add: emit_line_def Let_def)
  moreover have "wellformed (s\<lparr>r_reading := False\<rparr>)"
    using assms True by (simp add: wellformed_def)
  ultimately show ?thesis by (simp add: wellformed_close)
next
  case False
  with assms(1) obtain b line where "r_buffer s = Some b"
    and "s' = s\<lparr>r_reading := False, r_pos := Suc eol, nextTicks := nextTicks s @ [EmitLine line]\<rparr>"
    by (auto simp: emit_line_def Let_def split: option.splits if_splits)
  with assms show ?thesis
    by (auto simp: wellformed_def split: if_splits)
qed

lemma wellformed_refill:
  assumes "refill s = Some s'"
    and "r_reading s" and "\<not> r_eof s" and "pending_reads s = []"
    and "r_pos s \<le> r_end s" and "r_end s \<le> BUF_SIZE"
  shows "wellformed s'"
proof -
  from assms(1) obtain b b' i p where b: "r_buffer s = Some b"
    and c: "compact b (r_end s) 0 (r_pos s) = (b', i, p)"
    and s': "s' = s\<lparr>r_buffer := Some b', r_pos := 0, r_end := i,
               pending_reads := pending_reads s @
                 [\<lparr>rq_offset = i, rq_length = BUF_SIZE - i, rq_position = r_readPointer s\<rparr>]\<rparr>"
    by (auto simp: refill_def split: option.splits prod.splits if_splits)
  from compact_result [OF c] have "i = r_end s - r_pos s" by simp
  with assms s' show ?thesis
    by (simp add: wellformed_def)
qed

lemma wellformed_loop:
  assumes "loop s = Some s'"
    and "r_reading s" and "r_buffer s \<noteq> None" and "\<not> r_eof s" and "pending_reads s = []"
    and "r_pos s \<le> r_end s" and "r_end s \<le> BUF_SIZE"
  shows "wellformed s'"
proof -
  from assms(3) obtain b where b: "r_buffer s = Some b" by auto
  let ?eol = "scan_eol b (r_end s) (r_pos s)"
  have eol: "find_eol s = Some ?eol" by (simp add: find_eol_def b)
  from scan_eol_range [OF assms(6), of b] have range: "r_pos s \<le> ?eol" "?eol \<le> r_end s" by simp_all
  have base: "wellformed (s\<lparr>r_reading := False\<rparr>)"
    using assms by (simp add: wellformed_def)
  show ?thesis
  proof (cases "?eol = r_end s")
    case True
    show ?thesis
    proof (cases "r_pos s = 0 \<and> r_end s = BUF_SIZE")
      case full: True
      with assms(1) eol True have "s' = close (emit (Some LineTooLarge, False, []) s)"
        by (simp add: loop_def)
      moreover have "wellformed (close s)"
        using assms by (auto simp: wellformed_def close_def)
      ultimately show ?thesis
        using assms by (auto simp: wellformed_def close_def emit_def)
    next
      case False
      with assms(1) eol True have "refill s = Some s'"
        by (auto simp: loop_def)
      then show ?thesis by (rule wellformed_refill) (use assms in simp_all)
    qed
  next
    case False
    with assms(1) eol have "emit_line ?eol s = Some s'"
      by (simp add: loop_def)
    moreover from False range assms(4) have "if r_eof s then ?eol = r_end s else ?eol < r_end s"
      by simp
    ultimately show ?thesis
      using assms by (intro wellformed_emit_line [of ?eol s s']) simp_all
  qed
qed

lemma wellformed_next:
  assumes "reader_next s = Some s'" and "wellformed s"
  shows "wellformed s'"
proof -
  consider (reading) "r_reading s" | (eof) "\<not> r_reading s" "r_eof s"
    | (closed) "\<not> r_reading s" "\<not> r_eof s" "r_buffer s = None"
    | (go) "\<not> r_reading s" "\<not> r_eof s" "r_buffer s \<noteq> None"
    by blast
  then show ?thesis
  proof cases
    case reading
    with assms have "s' = close (emit (Some AlreadyInCourse, False, []) s)"
      by (simp add: reader_next_def)
    with assms(2) show ?thesis by (simp add: wellformed_close)
  next
    case eof
    with assms have "s' = close (emit (None, True, []) s)"
      by (simp add: reader_next_def)
    with assms(2) show ?thesis by (simp add: wellformed_close)
  next
    case closed
    with assms have "s' = emit (Some FileClosed, False, []) s"
      by (simp add: reader_next_def)
    with assms(2) show ?thesis by simp
  next
    case go
    with assms have "loop (s\<lparr>r_reading := True\<rparr>) = Some s'"
      by (simp add: reader_next_def)
    moreover from go assms(2) have "pending_reads s = []" "r_pos s \<le> r_end s" "r_end s \<le> BUF_SIZE"
      by (auto simp: wellformed_def)
    ultimately show ?thesis
      using go by (intro wellformed_loop [of "s\<lparr>r_reading := True\<rparr>" s']) simp_all
  qed
qed

lemma wellformed_callback:
  assumes "refill_callback err fetched s = Some s'"
    and "r_end s \<le> BUF_SIZE"
    and "r_pos s \<le> (if r_eof s then Suc (r_end s) else r_end s)"
    and "if r_reading s
         then r_buffer s \<noteq> None \<and> \<not> r_eof s \<and> pending_reads s = [] \<and> fetched \<le> BUF_SIZE - r_end s
         else r_buffer s = None"
  shows "wellformed s'"
proof (cases err)
  case (Some e)
  with assms(1) have "s' = close (emit (Some e, False, []) s)"
    by (simp add: refill_callback_def)
  moreover have "wellformed (close s)"
    using assms(2-) by (auto simp: wellformed_def close_def split: if_splits)
  ultimately show ?thesis
    by (auto simp: wellformed_def close_def emit_def split: if_splits)
next
  case None
  show ?thesis
  proof (cases "r_reading s")
    case False
    with None assms show ?thesis
      by (auto simp: refill_callback_def wellformed_def split: if_splits)
  next
    case True
    with assms(4) have opn: "r_buffer s \<noteq> None" and ne: "\<not> r_eof s" and pe: "pending_reads s = []"
      and le: "fetched \<le> BUF_SIZE - r_end s" by simp_all
    from ne assms(3) have pos: "r_pos s \<le> r_end s" by simp
    show ?thesis
    proof (cases "fetched = 0")
      case zero: True
      with None True assms(1) have "emit_line (r_end s) (s\<lparr>r_eof := True\<rparr>) = Some s'"
        by (simp add: refill_callback_def Let_def)
      then show ?thesis
        using assms(2) pe pos by (intro wellformed_emit_line [of "r_end s" "s\<lparr>r_eof := True\<rparr>" s']) simp_all
    next
      case False
      with None True assms(1)
      have "loop (s\<lparr>r_end := r_end s + fetched, r_readPointer := r_readPointer s + fetched\<rparr>) = Some s'"
        by (simp add: refill_callback_def)
      then show ?thesis
        using True opn ne pe pos le assms(2)
        by (intro wellformed_loop [of "s\<lparr>r_end := r_end s + fetched, r_readPointer := r_readPointer s + fetched\<rparr>" s'])
          simp_all
    qed
  qed
qed

lemma wellformed_complete_read:
  assumes "complete_read out s = Some s'" and "wellformed s"
  shows "wellformed s'"
proof -
  from assms(1) obtain rq rest where p: "pending_reads s = rq # rest"
    by (auto simp: complete_read_def split: list.splits)
  let ?s1 = "s\<lparr>pending_reads := rest\<rparr>"
  from p assms(2) have rest: "r_reading s \<Longrightarrow> rest = [] \<and> rq_length rq \<le> BUF_SIZE - r_end s"
    and closed: "\<not> r_reading s \<Longrightarrow> r_buffer s = None"
    and opn: "r_reading s \<Longrightarrow> r_buffer s \<noteq> None \<and> \<not> r_eof s"
    and idx: "r_end s \<le> BUF_SIZE" "r_pos s \<le> (if r_eof s then Suc (r_end s) else r_end s)"
    by (auto simp: wellformed_def split: if_splits)
  show ?thesis
  proof (cases out)
    case (Failed e)
    with assms(1) p have "refill_callback (Some e) 0 ?s1 = Some s'"
      by (simp add: complete_read_def)
    then show ?thesis
      using idx rest closed opn
      by (intro wellformed_callback [of "Some e" 0 ?s1 s']) auto
  next
    case (Fetched bytes)
    let ?data = "take (rq_length rq) bytes"
    let ?s2 = "?s1\<lparr>r_buffer := map_option (\<lambda>b. store b (rq_offset rq) ?data) (r_buffer ?s1)\<rparr>"
    from Fetched assms(1) p have "refill_callback None (length ?data) ?s2 = Some s'"
      by (simp add: complete_read_def Let_def)
    moreover have "length ?data \<le> rq_length rq" by simp
    ultimately show ?thesis
      using idx rest closed opn
      by (intro wellformed_callback [of None "length ?data" ?s2 s']) auto
  qed
qed

lemma wellformed_tick: "run_tick s = Some s' \<Longrightarrow> wellformed s \<Longrightarrow> wellformed s'"
  by (auto simp: run_tick_def wellformed_def emit_def Let_def split: list.splits tick.splits)

lemma wellformed_step: "step a s = Some s' \<Longrightarrow> wellformed s \<Longrightarrow> wellformed s'"
  by (cases a) (auto simp: wellformed_next wellformed_close wellformed_tick wellformed_complete_read
      split: if_splits)

lemma wellformed_run: "run acts s = Some s' \<Longrightarrow> wellformed s \<Longrightarrow> wellformed s'"
  by (induction acts arbitrary: s) (auto simp: wellformed_step split: option.splits)

lemma wellformed_new: "wellformed ((ReadFileAsync fd mem)\<lparr>listeners := l\<rparr>)"
  by (simp add: wellformed_def ReadFileAsync_def)

lemma attached_emit [simp]: "attached (emit ev s) = attached s"
  by (simp add: attached_def emit_def)

lemma attached_close: "attached s \<Longrightarrow> attached (close s)"
  by (auto simp: attached_def close_def)

lemma attached_emit_line: "emit_line eol s = Some s' \<Longrightarrow> attached s \<Longrightarrow> attached s'"
  by (auto simp: emit_line_def Let_def attached_def close_def emit_def split: if_splits option.splits)

lemma attached_refill: "refill s = Some s' \<Longrightarrow> attached s \<Longrightarrow> attached s'"
  by (auto simp: refill_def attached_def split: option.splits prod.splits if_splits)

lemma attached_reading [simp]: "attached (s\<lparr>r_reading := x\<rparr>) = attached s"
  by (simp add: attached_def)

lemma attached_loop: "loop s = Some s' \<Longrightarrow> attached s \<Longrightarrow> attached s'"
  by (auto simp: loop_def attached_close attached_emit_line attached_refill
      split: option.splits if_splits)

lemma attached_next: "reader_next s = Some s' \<Longrightarrow> attached s \<Longrightarrow> attached s'"
  by (auto simp: reader_next_def attached_close dest: attached_loop split: if_splits)

lemma attached_callback: "refill_callback err fetched s = Some s' \<Longrightarrow> attached s \<Longrightarrow> attached s'"
proof (cases err)
  case (Some e)
  assume "refill_callback err fetched s = Some s'" "attached s"
  with Some show ?thesis by (auto simp: refill_callback_def attached_close)
next
  case None
  assume a: "refill_callback err fetched s = Some s'" "attached s"
  have 1: "attached (s\<lparr>r_eof := True\<rparr>)"
    using a(2) by (auto simp: attached_def split: if_splits)
  have 2: "attached (s\<lparr>r_end := r_end s + fetched, r_readPointer := r_readPointer s + fetched\<rparr>)"
    using a(2) by (auto simp: attached_def split: if_splits)
  from a None show ?thesis
    by (auto simp: refill_callback_def Let_def split: if_splits
        dest: attached_emit_line [OF _ 1] attached_loop [OF _ 2])
qed

lemma attached_complete_read: "complete_read out s = Some s' \<Longrightarrow> attached s \<Longrightarrow> attached s'"
proof -
  assume a: "complete_read out s = Some s'" "attached s"
  then obtain rq rest where p: "pending_reads s = rq # rest"
    by (auto simp: complete_read_def split: list.splits)
  have 1: "attached (s\<lparr>pending_reads := rest\<rparr>)"
    using a(2) by (auto simp: attached_def split: if_splits)
  have 2: "attached (s\<lparr>pending_reads := rest,
      r_buffer := map_option f (r_buffer s)\<rparr>)" for f
    using a(2) by (auto simp: attached_def split: if_splits)
  show ?thesis
  proof (cases out)
    case (Failed e)
    with a p show ?thesis
      by (auto simp: complete_read_def dest: attached_callback [OF _ 1])
  next
    case (Fetched bytes)
    with a p show ?thesis
      by (auto simp: complete_read_def Let_def dest: attached_callback [OF _ 2])
  qed
qed

lemma attached_tick: "run_tick s = Some s' \<Longrightarrow> attached s \<Longrightarrow> attached s'"
  by (auto simp: run_tick_def attached_def emit_def Let_def split: list.splits tick.splits if_splits)

lemma attached_step: "step a s = Some s' \<Longrightarrow> attached s \<Longrightarrow> attached s'"
  by (cases a) (auto simp: attached_next attached_close attached_tick attached_complete_read
      split: if_splits)

lemma attached_run: "run acts s = Some s' \<Longrightarrow> attached s \<Longrightarrow> attached s'"
  by (induction acts arbitrary: s) (auto simp: attached_step split: option.splits)

lemma attached_started: "attached (started fd mem)"
  by (simp add: attached_def started_def on_line_def ReadFileAsync_def)

lemma wellformed_started: "wellformed (started fd mem)"
  by (simp add: wellformed_def started_def on_line_def ReadFileAsync_def)

lemma shut_next: "shut s \<Longrightarrow> reader_next s = Some (emit (Some FileClosed, False, []) s)"
  by (simp add: shut_def reader_next_def)

lemma shut_emit [simp]: "shut (emit ev s) = shut s"
  by (simp add: shut_def emit_def)

lemma shut_close: "shut s \<Longrightarrow> close s = s"
  by (simp add: shut_def close_def)

lemma shut_tick: "run_tick s = Some s' \<Longrightarrow> shut s \<Longrightarrow> shut s'"
proof -
  assume a: "run_tick s = Some s'" "shut s"
  then obtain t ts where t: "nextTicks s = t # ts"
    by (auto simp: run_tick_def split: list.splits)
  have 1: "shut (s\<lparr>nextTicks := ts\<rparr>)" using a(2) by (simp add: shut_def)
  show ?thesis
  proof (cases t)
    case (EmitLine line)
    with a t have "s' = emit (None, False, line) (s\<lparr>nextTicks := ts\<rparr>)"
      by (simp add: run_tick_def)
    with 1 show ?thesis by simp
  next
    case RemoveAllListeners
    with a t have "s' = s\<lparr>nextTicks := ts, listeners := False\<rparr>"
      by (simp add: run_tick_def)
    with a(2) show ?thesis by (simp add: shut_def)
  qed
qed

lemma shut_callback: "refill_callback err fetched s = Some s' \<Longrightarrow> shut s \<Longrightarrow> shut s'"
proof (cases err)
  case (Some e)
  assume a: "refill_callback err fetched s = Some s'" "shut s"
  have "close (emit (Some e, False, []) s) = emit (Some e, False, []) s"
    using a(2) by (intro shut_close) simp
  with a Some show ?thesis by (auto simp: refill_callback_def)
next
  case None
  assume a: "refill_callback err fetched s = Some s'" "shut s"
  with None show ?thesis by (auto simp: refill_callback_def shut_def)
qed

lemma shut_complete_read: "complete_read out s = Some s' \<Longrightarrow> shut s \<Longrightarrow> shut s'"
proof -
  assume a: "complete_read out s = Some s'" "shut s"
  then obtain rq rest where p: "pending_reads s = rq # rest"
    by (auto simp: complete_read_def split: list.splits)
  have 1: "shut (s\<lparr>pending_reads := rest\<rparr>)" using a(2) by (simp add: shut_def)
  have 2: "shut (s\<lparr>pending_reads := rest, r_buffer := map_option f (r_buffer s)\<rparr>)" for f
    using a(2) by (simp add: shut_def)
  show ?thesis
  proof (cases out)
    case (Failed e)
    with a p have "refill_callback (Some e) 0 (s\<lparr>pending_reads := rest\<rparr>) = Some s'"
      by (simp add: complete_read_def)
    then show ?thesis using 1 by (rule shut_callback)
  next
    case (Fetched bytes)
    with a p obtain f n where
      "refill_callback None n (s\<lparr>pending_reads := rest, r_buffer := map_option f (r_buffer s)\<rparr>) = Some s'"
      by (simp add: complete_read_def Let_def)
    then show ?thesis using 2 by (rule shut_callback)
  qed
qed

lemma shut_step: "step a s = Some s' \<Longrightarrow> shut s \<Longrightarrow> shut s'"
proof (cases a)
  case CallNext
  assume "step a s = Some s'" "shut s"
  with CallNext show ?thesis by (auto simp: shut_next)
next
  case CallClose
  assume "step a s = Some s'" "shut s"
  with CallClose show ?thesis by (auto simp: shut_close)
next
  case Tick
  assume "step a s = Some s'" "shut s"
  with Tick show ?thesis by (auto simp: shut_tick)
next
  case (ReadDone out)
  assume "step a s = Some s'" "shut s"
  with ReadDone show ?thesis by (auto simp: shut_complete_read split: if_splits)
qed

lemma shut_run: "run acts s = Some s' \<Longrightarrow> shut s \<Longrightarrow> shut s'"
  by (induction acts arbitrary: s) (auto simp: shut_step split: option.splits)

section \<open>The window indices\<close>

text \<open>
  Claim C5, as amended. In every state a reader reaches from its construction (with or
  without a listener) by calls of \<open>next()\<close> and \<open>close()\<close>, callbacks of
  \<open>process.nextTick\<close> and reads calling back with any result, the end of the window is
  at most \<open>BUF_SIZE\<close>, and the position is at most the end as long as the end of the
  file has not been seen; from then on it is at most one more than the end.
\<close>

theorem window_indices_invariant:
  assumes "run acts ((ReadFileAsync fd mem)\<lparr>listeners := l\<rparr>) = Some s"
  shows "r_end s \<le> BUF_SIZE \<and> r_pos s \<le> Suc (r_end s) \<and> (r_eof s \<or> r_pos s \<le> r_end s)"
  using wellformed_run [OF assms wellformed_new]
  by (auto simp: wellformed_def split: if_splits)

text \<open>The invariant in the state after a first line has been emitted and the next asked for.\<close>

theorem window_indices_invariant_witness:
  "\<exists>s. run [CallNext, ReadDone (Fetched ''ab\<newline>cd''), Tick, CallNext]
          ((ReadFileAsync 3 (\<lambda>_. CHR 0x00))\<lparr>listeners := True\<rparr>) = Some s \<and>
       r_end s \<le> BUF_SIZE \<and> r_pos s \<le> Suc (r_end s) \<and> (r_eof s \<or> r_pos s \<le> r_end s)"
proof -
  have "run [CallNext, ReadDone (Fetched ''ab\<newline>cd''), Tick, CallNext]
          ((ReadFileAsync 3 (\<lambda>_. CHR 0x00))\<lparr>listeners := True\<rparr>) \<noteq> None"
    by code_simp
  then obtain s where s: "run [CallNext, ReadDone (Fetched ''ab\<newline>cd''), Tick, CallNext]
          ((ReadFileAsync 3 (\<lambda>_. CHR 0x00))\<lparr>listeners := True\<rparr>) = Some s"
    by auto
  from window_indices_invariant [OF s] s show ?thesis by blast
qed

text \<open>
  Claim C5 as it is stated fails: a file \<open>abc\<close> without a final line feed is read, the
  end of the file is found, and \<open>_emit_line\<close> leaves \<open>_pos = 4\<close> behind \<open>_end = 3\<close>.
\<close>

theorem window_indices_counterexample:
  "map_option r_pos
     (run [CallNext, ReadDone (Fetched ''abc''), ReadDone (Fetched [])] (started 3 zeroed))
   = Some 4 \<and>
   map_option r_end
     (run [CallNext, ReadDone (Fetched ''abc''), ReadDone (Fetched [])] (started 3 zeroed))
   = Some 3"
  by code_simp

section \<open>Calling \<open>next()\<close> during a fetch\<close>

text \<open>
  Claim C7. In any reachable state with a fetch under way, \<open>next()\<close> emits the error
  "read operation already in course" (the listener is still there and receives it) and
  closes the reader: the buffer is dropped, the descriptor handed to \<open>fs.close\<close>.
  Whatever happens afterwards, the reader stays closed, and every later \<open>next()\<close> does
  nothing but emit the error "file is closed": no line and no end of file.
\<close>

theorem reentrant_next_closes:
  assumes "run acts (started fd mem) = Some s" and "r_reading s"
  shows "\<exists>s1. reader_next s = Some s1 \<and>
           emitted s1 = emitted s @ [(Some AlreadyInCourse, False, [])] \<and>
           delivered s1 = delivered s @ [(Some AlreadyInCourse, False, [])] \<and>
           r_buffer s1 = None \<and> \<not> r_reading s1 \<and>
           closed_fds s1 = closed_fds s @ [r_fd s] \<and>
           (\<forall>acts' s2. run acts' s1 = Some s2 \<longrightarrow>
              r_buffer s2 = None \<and>
              reader_next s2 = Some (emit (Some FileClosed, False, []) s2))"
proof -
  from assms(1) have w: "wellformed s" and a: "attached s"
    by (auto intro: wellformed_run attached_run wellformed_started attached_started)
  from w assms(2) have opn: "r_buffer s \<noteq> None" and ne: "\<not> r_eof s"
    by (auto simp: wellformed_def)
  from a opn have l: "listeners s" by (simp add: attached_def)
  let ?s1 = "close (emit (Some AlreadyInCourse, False, []) s)"
  have n: "reader_next s = Some ?s1" using assms(2) by (simp add: reader_next_def)
  have sh: "shut ?s1" using opn ne by (simp add: shut_def close_def emit_def)
  show ?thesis
  proof (rule exI [of _ ?s1], intro conjI allI impI)
    show "reader_next s = Some ?s1" by (rule n)
    show "emitted ?s1 = emitted s @ [(Some AlreadyInCourse, False, [])]"
      using opn by (simp add: close_def emit_def)
    show "delivered ?s1 = delivered s @ [(Some AlreadyInCourse, False, [])]"
      using opn l by (simp add: close_def emit_def)
    show "r_buffer ?s1 = None" using sh by (simp add: shut_def)
    show "\<not> r_reading ?s1" using sh by (simp add: shut_def)
    show "closed_fds ?s1 = closed_fds s @ [r_fd s]"
      using opn by (simp add: close_def emit_def)
  next
    fix acts' s2
    assume "run acts' ?s1 = Some s2"
    then have "shut s2" using sh by (rule shut_run)
    then show "r_buffer s2 = None" by (simp add: shut_def)
    from \<open>shut s2\<close> show "reader_next s2 = Some (emit (Some FileClosed, False, []) s2)"
      by (rule shut_next)
  qed
qed

text \<open>A second \<open>next()\<close> right after the first, and a third one.\<close>

theorem reentrant_next_closes_witness:
  "\<exists>s s1. run [CallNext] (started 3 (\<lambda>_. CHR 0x00)) = Some s \<and> r_reading s \<and>
      reader_next s = Some s1 \<and>
      emitted s1 = [(Some AlreadyInCourse, False, [])] \<and>
      r_buffer s1 = None \<and>
      reader_next s1 = Some (emit (Some FileClosed, False, []) s1)"
proof -
  have "map_option (\<lambda>s. (r_reading s, emitted s)) (run [CallNext] (started 3 (\<lambda>_. CHR 0x00)))
          = Some (True, [])"
    by code_simp
  then obtain s where s: "run [CallNext] (started 3 (\<lambda>_. CHR 0x00)) = Some s"
    and r: "r_reading s" and e: "emitted s = []"
    by (cases "run [CallNext] (started 3 (\<lambda>_. CHR 0x00))") simp_all
  from reentrant_next_closes [OF s r] obtain s1 where
    1: "reader_next s = Some s1" and 2: "emitted s1 = emitted s @ [(Some AlreadyInCourse, False, [])]"
    and 3: "r_buffer s1 = None"
    and 4: "\<forall>acts' s2. run acts' s1 = Some s2 \<longrightarrow>
        r_buffer s2 = None \<and> reader_next s2 = Some (emit (Some FileClosed, False, []) s2)"
    by (elim exE conjE)
  have "run [] s1 = Some s1" by simp
  with 4 have 5: "reader_next s1 = Some (emit (Some FileClosed, False, []) s1)" by blast
  from 2 e have 6: "emitted s1 = [(Some AlreadyInCourse, False, [])]" by simp
  from s r 1 6 3 5 show ?thesis by blast
qed

section \<open>A read that calls back after the reader was closed\<close>




section \<open>The reader against the expected events\<close>

text \<open>One turn of the event loop, by what is pending.\<close>

lemma consume_tick:
  "nextTicks s = t # ts \<Longrightarrow>
   consume chunk file ask s =
     consume chunk file (ask \<or> (listeners s \<and> is_line_tick t))
       (case t of
          EmitLine line \<Rightarrow> emit (None, False, line) (s\<lparr>nextTicks := ts\<rparr>)
        | RemoveAllListeners \<Rightarrow> s\<lparr>nextTicks := ts, listeners := False\<rparr>)"
  by (subst consume.simps) (simp add: run_tick_def Let_def)

lemma consume_read:
  "nextTicks s = [] \<Longrightarrow> pending_reads s = rq # rqs \<Longrightarrow>
   consume chunk file ask s =
     (case complete_read (Fetched (fs_read chunk file rq)) s of
        None \<Rightarrow> None
      | Some s' \<Rightarrow> consume chunk file ask s')"
  by (subst consume.simps) simp

lemma consume_ask:
  "nextTicks s = [] \<Longrightarrow> pending_reads s = [] \<Longrightarrow>
   consume chunk file True s =
     (case reader_next s of None \<Rightarrow> None | Some s' \<Rightarrow> consume chunk file False s')"
  by (subst consume.simps) simp

lemma consume_done:
  "nextTicks s = [] \<Longrightarrow> pending_reads s = [] \<Longrightarrow> consume chunk file False s = Some s"
  by (subst consume.simps) simp

text \<open>What the loops over the buffer compute, and what a read leaves in it.\<close>

lemma scan_eol_takeWhile:
  "i \<le> e \<Longrightarrow> e \<le> BUF_SIZE \<Longrightarrow>
   scan_eol b e i = i + length (takeWhile (\<lambda>c. c \<noteq> LF) (map b [i ..< e]))"
proof (induction b e i rule: scan_eol.induct)
  case (1 b e i)
  show ?case
  proof (cases "i < e")
    case True
    then have up: "[i ..< e] = i # [Suc i ..< e]" by (simp add: upt_conv_Cons)
    from True "1.prems" have g: "buf_get b i = Some (b i)" by (simp add: buf_get_def)
    show ?thesis
    proof (cases "b i = LF")
      case True
      then show ?thesis using \<open>i < e\<close> g up by (simp add: scan_eol.simps [of b e i])
    next
      case False
      with \<open>i < e\<close> g have "scan_eol b e i = scan_eol b e (Suc i)"
        by (simp add: scan_eol.simps [of b e i])
      also have "\<dots> = Suc i + length (takeWhile (\<lambda>c. c \<noteq> LF) (map b [Suc i ..< e]))"
        using "1.IH" \<open>i < e\<close> g False "1.prems" by simp
      finally show ?thesis using False up by simp
    qed
  next
    case False
    with "1.prems" have "i = e" by simp
    then show ?thesis by (subst scan_eol.simps) simp
  qed
qed

lemma compact_contents:
  "compact b e i p = (b', i', p') \<Longrightarrow> i \<le> p \<Longrightarrow> p \<le> e \<Longrightarrow> e \<le> BUF_SIZE \<Longrightarrow>
   (\<forall>k < i. b' k = b k) \<and> (\<forall>k < e - p. b' (i + k) = b (p + k))"
proof (induction b e i p rule: compact.induct)
  case (1 b e i p)
  show ?case
  proof (cases "p < e")
    case True
    let ?b1 = "buf_set b i (buf_get b p)"
    from True "1.prems" have b1: "?b1 = b(i := b p)"
      by (simp add: buf_set_def buf_get_def)
    from True "1.prems" have c: "compact ?b1 e (Suc i) (Suc p) = (b', i', p')"
      by (simp add: compact.simps [of b])
    from "1.IH" [OF True c] True "1.prems"
    have IH1: "\<forall>k < Suc i. b' k = ?b1 k" and IH2: "\<forall>k < e - Suc p. b' (Suc i + k) = ?b1 (Suc p + k)"
      by simp_all
    have "b' k = b k" if "k < i" for k
      using IH1 that by (simp add: b1)
    moreover have "b' (i + k) = b (p + k)" if "k < e - p" for k
    proof (cases k)
      case 0
      with IH1 show ?thesis by (simp add: b1)
    next
      case (Suc k')
      with that have "k' < e - Suc p" by simp
      with IH2 have "b' (Suc i + k') = ?b1 (Suc p + k')" by simp
      with Suc "1.prems" show ?thesis by (simp add: b1)
    qed
    ultimately show ?thesis by simp
  next
    case False
    with "1.prems" show ?thesis by (simp add: compact.simps [of b])
  qed
qed

lemma compact_window:
  assumes "compact b e 0 p = (b', i', p')" and "p \<le> e" and "e \<le> BUF_SIZE"
  shows "i' = e - p \<and> map b' [0 ..< e - p] = map b [p ..< e]"
proof -
  from compact_result [OF assms(1)] have i': "i' = e - p" by simp
  from compact_contents [OF assms(1) _ assms(2,3)] have c: "\<forall>k < e - p. b' k = b (p + k)" by simp
  have "map b' [0 ..< e - p] = map b [p ..< e]"
  proof (rule nth_equalityI)
    show "length (map b' [0 ..< e - p]) = length (map b [p ..< e])" by simp
  next
    fix k assume "k < length (map b' [0 ..< e - p])"
    then have k: "k < e - p" by simp
    with c show "map b' [0 ..< e - p] ! k = map b [p ..< e] ! k" by simp
  qed
  with i' show ?thesis by simp
qed

lemma store_nth:
  "store b i data k = (if i \<le> k \<and> k < i + length data then data ! (k - i) else b k)"
proof (induction data arbitrary: b i)
  case Nil
  show ?case by auto
next
  case (Cons c cs)
  have IH: "store (b(i := c)) (Suc i) cs k =
      (if Suc i \<le> k \<and> k < Suc i + length cs then cs ! (k - Suc i) else (b(i := c)) k)"
    by (rule Cons)
  show ?case
  proof (cases "k = i")
    case True
    with IH show ?thesis by simp
  next
    case False
    with IH show ?thesis
      by (auto simp: nth_Cons')
  qed
qed

lemma store_window:
  "map (store b e data) [p ..< e + length data] = map b [p ..< e] @ data" if "p \<le> e"
proof (rule nth_equalityI)
  show "length (map (store b e data) [p ..< e + length data]) = length (map b [p ..< e] @ data)"
    using that by simp
next
  fix k assume "k < length (map (store b e data) [p ..< e + length data])"
  then have k: "k < e + length data - p" by simp
  show "map (store b e data) [p ..< e + length data] ! k = (map b [p ..< e] @ data) ! k"
  proof (cases "k < e - p")
    case True
    with k that show ?thesis by (auto simp: store_nth nth_append)
  next
    case False
    with k that have "p + k - e = k - (e - p)" by simp
    with False k that show ?thesis by (auto simp: store_nth nth_append)
  qed
qed

lemma strip_cr_buffer:
  assumes "eol \<le> BUF_SIZE"
  shows "toString b begin (if eol \<noteq> 0 \<and> buf_get b (eol - 1) = Some CR then eol - 1 else eol)
         = strip_cr (map b [begin ..< eol])"
proof (cases "begin < eol")
  case False
  then show ?thesis by (auto simp: toString_def strip_cr_def min_def)
next
  case True
  then have up: "[begin ..< eol] = [begin ..< eol - 1] @ [eol - 1]"
    by (metis Suc_diff_1 le_simps(2) less_imp_Suc_add upt_Suc_append zero_less_Suc less_Suc_eq_le add_Suc_right One_nat_def diff_Suc_1 le_add1)
  from True assms have g: "buf_get b (eol - 1) = Some (b (eol - 1))" by (simp add: buf_get_def)
  from True have ne: "eol \<noteq> 0" by simp
  show ?thesis
  proof (cases "b (eol - 1) = CR")
    case True
    with g ne assms up show ?thesis
      by (simp add: toString_def strip_cr_def min_def)
  next
    case False
    with g ne assms up show ?thesis
      by (simp add: toString_def strip_cr_def min_def)
  qed
qed

text \<open>The expected events, case by case.\<close>

lemma expected_line:
  assumes "LF \<in> set w" and "length w \<le> BUF_SIZE"
  shows "expected (w @ r) =
           (None, False, strip_cr (takeWhile (\<lambda>c. c \<noteq> LF) w)) #
             expected (tl (dropWhile (\<lambda>c. c \<noteq> LF) w) @ r)"
proof -
  from assms have "LF \<in> set (take BUF_SIZE (w @ r))" by simp
  moreover from assms(1) have "takeWhile (\<lambda>c. c \<noteq> LF) (w @ r) = takeWhile (\<lambda>c. c \<noteq> LF) w"
    by (intro takeWhile_append1 [of LF]) simp_all
  moreover from assms(1) have "dropWhile (\<lambda>c. c \<noteq> LF) (w @ r) = dropWhile (\<lambda>c. c \<noteq> LF) w @ r"
    by (intro dropWhile_append1 [of LF]) simp_all
  moreover from assms(1) have "dropWhile (\<lambda>c. c \<noteq> LF) w \<noteq> []" by simp
  ultimately show ?thesis
    by (subst expected.simps) simp
qed

lemma expected_too_large:
  assumes "LF \<notin> set w" and "length w = BUF_SIZE"
  shows "expected (w @ r) = [(Some LineTooLarge, False, [])]"
proof -
  from assms have "LF \<notin> set (take BUF_SIZE (w @ r))" by simp
  moreover from assms(2) have "BUF_SIZE \<le> length (w @ r)" by simp
  ultimately show ?thesis by (subst expected.simps) simp
qed

lemma expected_last:
  assumes "LF \<notin> set w" and "length w < BUF_SIZE"
  shows "expected w = (if w = [] then [(None, True, [])]
                      else [(None, False, strip_cr w), (None, True, [])])"
proof -
  from assms(1) have "LF \<notin> set (take BUF_SIZE w)" by (auto dest: in_set_takeD)
  with assms(2) show ?thesis by (subst expected.simps) simp
qed

text \<open>
  What \<open>loop\<close> does in a scanning state: it finds a line, gives up on a full buffer, or
  starts a read. Then the turns that emit a line, close the reader, and end the file.
\<close>

lemma takeWhile_shorter: "x \<in> set xs \<Longrightarrow> \<not> P x \<Longrightarrow> length (takeWhile P xs) < length xs"
  by (induction xs) auto

lemma window_cong:
  "r_buffer s' = r_buffer s \<Longrightarrow> r_pos s' = r_pos s \<Longrightarrow> r_end s' = r_end s \<Longrightarrow>
   window s' = window s"
  by (simp add: window_def split: option.splits)

lemma window_Some: "r_buffer s = Some b \<Longrightarrow> window s = map b [r_pos s ..< r_end s]"
  by (simp add: window_def)

lemma find_eol_window:
  assumes "r_buffer s \<noteq> None" and "r_pos s \<le> r_end s" and "r_end s \<le> BUF_SIZE"
  shows "find_eol s = Some (r_pos s + length (takeWhile (\<lambda>c. c \<noteq> LF) (window s)))"
proof -
  from assms(1) obtain b where b: "r_buffer s = Some b" by auto
  then show ?thesis
    using scan_eol_takeWhile [OF assms(2,3), of b] by (simp add: find_eol_def window_Some)
qed

lemma loop_line:
  assumes sc: "scanning file s rem" and lf: "LF \<in> set (window s)"
  shows "\<exists>s1. loop s = Some s1 \<and> same_obs s s1 \<and>
           lined file s1 (strip_cr (takeWhile (\<lambda>c. c \<noteq> LF) (window s)))
             (tl (dropWhile (\<lambda>c. c \<noteq> LF) (window s)) @ drop (r_readPointer s) file)"
proof -
  from sc obtain b where b: "r_buffer s = Some b" by (auto simp: scanning_def)
  from sc have pe: "r_pos s \<le> r_end s" and eb: "r_end s \<le> BUF_SIZE" and ne: "\<not> r_eof s"
    and lis: "listeners s" and nt: "nextTicks s = []" and pr: "pending_reads s = []"
    by (simp_all add: scanning_def)
  let ?w = "window s"
  let ?n = "length (takeWhile (\<lambda>c. c \<noteq> LF) ?w)"
  let ?eol = "r_pos s + ?n"
  have w: "?w = map b [r_pos s ..< r_end s]" using b by (rule window_Some)
  have lw: "length ?w = r_end s - r_pos s" by (simp add: w)
  from lf have "?n < length ?w"
    by (intro takeWhile_shorter [of LF]) simp_all
  with lw have n: "?n < r_end s - r_pos s" by simp
  then have eol: "?eol < r_end s" by simp
  have fe: "find_eol s = Some ?eol"
    using b pe eb by (intro find_eol_window) simp_all
  have tk: "map b [r_pos s ..< ?eol] = takeWhile (\<lambda>c. c \<noteq> LF) ?w"
  proof -
    have "takeWhile (\<lambda>c. c \<noteq> LF) ?w = take ?n ?w" by (rule takeWhile_eq_take)
    also have "\<dots> = map b (take ?n [r_pos s ..< r_end s])" by (simp add: w take_map)
    also have "take ?n [r_pos s ..< r_end s] = [r_pos s ..< ?eol]"
      using n by (intro take_upt) simp
    finally show ?thesis by simp
  qed
  have dr: "map b [Suc ?eol ..< r_end s] = tl (dropWhile (\<lambda>c. c \<noteq> LF) ?w)"
  proof -
    have "tl (dropWhile (\<lambda>c. c \<noteq> LF) ?w) = tl (drop ?n ?w)" by (simp add: dropWhile_eq_drop)
    also have "\<dots> = drop (Suc ?n) ?w" by (simp add: tl_drop drop_Suc)
    also have "\<dots> = map b (drop (Suc ?n) [r_pos s ..< r_end s])" by (simp add: w drop_map)
    also have "drop (Suc ?n) [r_pos s ..< r_end s] = [Suc ?eol ..< r_end s]"
      by (simp add: drop_upt)
    finally show ?thesis by simp
  qed
  let ?line = "strip_cr (takeWhile (\<lambda>c. c \<noteq> LF) ?w)"
  let ?s1 = "s\<lparr>r_reading := False, r_pos := Suc ?eol, nextTicks := [EmitLine ?line]\<rparr>"
  from eol eb have "?eol \<le> BUF_SIZE" by simp
  from strip_cr_buffer [OF this, of b "r_pos s"]
  have line: "toString b (r_pos s) (if ?eol \<noteq> 0 \<and> buf_get b (?eol - 1) = Some CR then ?eol - 1 else ?eol)
      = ?line"
    by (simp only: tk)
  have "emit_line ?eol s = Some ?s1"
    using ne b nt line by (simp add: emit_line_def Let_def)
  with fe eol have l: "loop s = Some ?s1" by (simp add: loop_def)
  have "window ?s1 = tl (dropWhile (\<lambda>c. c \<noteq> LF) ?w)"
    using b dr by (simp add: window_def)
  then have "lined file ?s1 ?line (tl (dropWhile (\<lambda>c. c \<noteq> LF) ?w) @ drop (r_readPointer s) file)"
    using b eol eb ne lis pr by (simp add: lined_def)
  moreover have "same_obs s ?s1" by (simp add: same_obs_def)
  ultimately show ?thesis using l by blast
qed

lemma loop_too_large:
  assumes sc: "scanning file s rem" and lf: "LF \<notin> set (window s)"
    and full: "r_pos s = 0" "r_end s = BUF_SIZE"
  shows "loop s = Some (close (emit (Some LineTooLarge, False, []) s))"
proof -
  from sc have "find_eol s = Some (r_pos s + length (takeWhile (\<lambda>c. c \<noteq> LF) (window s)))"
    by (intro find_eol_window) (simp_all add: scanning_def)
  moreover from lf have "takeWhile (\<lambda>c. c \<noteq> LF) (window s) = window s"
    by (intro takeWhile_eq_all_conv [THEN iffD2]) auto
  moreover from sc have "length (window s) = r_end s - r_pos s"
    by (auto simp: scanning_def window_def)
  ultimately have "find_eol s = Some (r_end s)" using full by simp
  with full show ?thesis by (simp add: loop_def)
qed

lemma loop_refill:
  assumes sc: "scanning file s rem" and lf: "LF \<notin> set (window s)"
    and room: "\<not> (r_pos s = 0 \<and> r_end s = BUF_SIZE)"
  shows "\<exists>s1. loop s = Some s1 \<and> same_obs s s1 \<and> fetching file s1 rem \<and>
           r_readPointer s1 = r_readPointer s"
proof -
  from sc obtain b where b: "r_buffer s = Some b" by (auto simp: scanning_def)
  from sc have pe: "r_pos s \<le> r_end s" and eb: "r_end s \<le> BUF_SIZE" and ne: "\<not> r_eof s"
    and rd: "r_reading s"
    and lis: "listeners s" and nt: "nextTicks s = []" and pr: "pending_reads s = []"
    and rem: "rem = window s @ drop (r_readPointer s) file"
    by (simp_all add: scanning_def)
  have w: "window s = map b [r_pos s ..< r_end s]" using b by (rule window_Some)
  have "find_eol s = Some (r_pos s + length (takeWhile (\<lambda>c. c \<noteq> LF) (window s)))"
    using b pe eb by (intro find_eol_window) simp_all
  moreover from lf have "takeWhile (\<lambda>c. c \<noteq> LF) (window s) = window s"
    by (intro takeWhile_eq_all_conv [THEN iffD2]) auto
  moreover have "length (window s) = r_end s - r_pos s" by (simp add: w)
  ultimately have fe: "find_eol s = Some (r_end s)" using pe by simp
  with room have l: "loop s = refill s" by (auto simp: loop_def)
  obtain b' i p where c: "compact b (r_end s) 0 (r_pos s) = (b', i, p)"
    by (cases "compact b (r_end s) 0 (r_pos s)") auto
  from compact_window [OF c pe eb]
  have i: "i = r_end s - r_pos s" and cw: "map b' [0 ..< r_end s - r_pos s] = window s"
    by (simp_all add: w)
  let ?s1 = "s\<lparr>r_buffer := Some b', r_pos := 0, r_end := i,
               pending_reads := [\<lparr>rq_offset = i, rq_length = BUF_SIZE - i,
                                  rq_position = r_readPointer s\<rparr>]\<rparr>"
  from i eb have "\<not> BUF_SIZE < i" by simp
  then have r: "refill s = Some ?s1"
    using b c pr by (simp add: refill_def)
  from i room pe eb have small: "i < BUF_SIZE" by auto
  have "window ?s1 = window s" using cw i by (simp add: window_def)
  then have "fetching file ?s1 rem"
    using lf rem small rd ne lis nt by (simp add: fetching_def)
  moreover have "same_obs s ?s1" by (simp add: same_obs_def)
  ultimately show ?thesis using l r by auto
qed

lemma tick_line:
  assumes "lined file s line rem"
  shows "\<exists>s2. consume chunk file False s = consume chunk file True s2 \<and> idle file s2 rem \<and>
           emitted s2 = emitted s @ [(None, False, line)] \<and>
           delivered s2 = delivered s @ [(None, False, line)] \<and>
           closed_fds s2 = closed_fds s \<and> r_fd s2 = r_fd s"
proof -
  let ?s2 = "emit (None, False, line) (s\<lparr>nextTicks := []\<rparr>)"
  from assms have nt: "nextTicks s = EmitLine line # []" and lis: "listeners s"
    by (simp_all add: lined_def)
  from consume_tick [OF nt, of chunk "file" False] lis
  have "consume chunk file False s = consume chunk file True ?s2" by simp
  moreover have "window ?s2 = window s" by (rule window_cong) (simp_all add: emit_def)
  then have "idle file ?s2 rem"
    using assms by (simp add: lined_def idle_def) (simp add: emit_def)
  ultimately show ?thesis using lis by (auto simp: emit_def)
qed

lemma closing_finishes:
  assumes "r_buffer s \<noteq> None" and "nextTicks s = []" and "pending_reads s = []" and "listeners s"
  shows "finishes chunk file False (close (emit ev s))
           (emitted s @ [ev]) (delivered s @ [ev]) (closed_fds s @ [r_fd s])"
proof -
  let ?s1 = "close (emit ev s)"
  let ?s2 = "?s1\<lparr>nextTicks := [], listeners := False\<rparr>"
  have nt: "nextTicks ?s1 = RemoveAllListeners # []"
    using assms by (simp add: close_def emit_def)
  from consume_tick [OF nt, of chunk "file" False]
  have "consume chunk file False ?s1 = consume chunk file False ?s2" by simp
  also have "\<dots> = Some ?s2"
    using assms by (intro consume_done) (simp_all add: close_def emit_def)
  finally have "consume chunk file False ?s1 = Some ?s2" .
  moreover have "emitted ?s2 = emitted s @ [ev]" "delivered ?s2 = delivered s @ [ev]"
    "closed_fds ?s2 = closed_fds s @ [r_fd s]" "r_buffer ?s2 = None"
    using assms by (simp_all add: close_def emit_def)
  ultimately show ?thesis unfolding finishes_def by blast
qed

lemma last_line_finishes:
  assumes "r_buffer s \<noteq> None" and "r_eof s" and "\<not> r_reading s" and "listeners s"
    and "nextTicks s = [EmitLine line]" and "pending_reads s = []"
  shows "finishes chunk file False s
           (emitted s @ [(None, False, line), (None, True, [])])
           (delivered s @ [(None, False, line), (None, True, [])])
           (closed_fds s @ [r_fd s])"
proof -
  let ?s2 = "emit (None, False, line) (s\<lparr>nextTicks := []\<rparr>)"
  from assms have nt: "nextTicks s = EmitLine line # []" by simp
  from consume_tick [OF nt, of chunk "file" False] assms(4)
  have 1: "consume chunk file False s = consume chunk file True ?s2" by simp
  have p: "r_buffer ?s2 \<noteq> None" "nextTicks ?s2 = []" "pending_reads ?s2 = []" "listeners ?s2"
    using assms by (simp_all add: emit_def)
  have "reader_next ?s2 = Some (close (emit (None, True, []) ?s2))"
    using assms by (simp add: reader_next_def emit_def)
  with consume_ask [OF p(2,3), of chunk "file"]
  have 2: "consume chunk file True ?s2 = consume chunk file False (close (emit (None, True, []) ?s2))"
    by simp
  from closing_finishes [OF p, of chunk "file" "(None, True, [])"] 1 2
  show ?thesis
    using assms(4) by (simp add: finishes_def emit_def)
qed

text \<open>
  A read calls back: at the end of the file the rest of the window is the last line; with
  bytes, the window grows by them and \<open>loop\<close> scans again. By induction on what is left
  of the file a fetching reader completes, and by induction on what is left to consume
  an idle one does.
\<close>

lemma completes_same_obs:
  "same_obs s s1 \<Longrightarrow> finishes chunk file ask s1 (emitted s1 @ evs) (delivered s1 @ evs)
       (closed_fds s1 @ [r_fd s1])
   \<Longrightarrow> finishes chunk file ask s1 (emitted s @ evs) (delivered s @ evs) (closed_fds s @ [r_fd s])"
  by (simp add: same_obs_def)

lemma scan_finishes:
  assumes sc: "scanning file s rem"
    and lines: "\<And>s2 rem2. length rem2 < length rem \<Longrightarrow> idle file s2 rem2 \<Longrightarrow>
                  completes chunk file True s2 rem2"
    and fetch: "\<And>s1. fetching file s1 rem \<Longrightarrow> r_readPointer s1 = r_readPointer s \<Longrightarrow>
                  completes chunk file False s1 rem"
  shows "\<exists>s1. loop s = Some s1 \<and>
           finishes chunk file False s1 (emitted s @ expected rem) (delivered s @ expected rem)
             (closed_fds s @ [r_fd s])"
proof -
  from sc have rem: "rem = window s @ drop (r_readPointer s) file"
    and lw: "length (window s) = r_end s - r_pos s" and eb: "r_end s \<le> BUF_SIZE"
    and opn: "r_buffer s \<noteq> None" and nt: "nextTicks s = []" and pr: "pending_reads s = []"
    and lis: "listeners s"
    by (auto simp: scanning_def window_def)
  show ?thesis
  proof (cases "LF \<in> set (window s)")
    case True
    let ?line = "strip_cr (takeWhile (\<lambda>c. c \<noteq> LF) (window s))"
    let ?rem' = "tl (dropWhile (\<lambda>c. c \<noteq> LF) (window s)) @ drop (r_readPointer s) file"
    from loop_line [OF sc True] obtain s1 where l: "loop s = Some s1" and so: "same_obs s s1"
      and li: "lined file s1 ?line ?rem'"
      by blast
    from tick_line [OF li, of chunk] obtain s2 where
      c: "consume chunk file False s1 = consume chunk file True s2" and id: "idle file s2 ?rem'"
      and e2: "emitted s2 = emitted s1 @ [(None, False, ?line)]"
      and d2: "delivered s2 = delivered s1 @ [(None, False, ?line)]"
      and c2: "closed_fds s2 = closed_fds s1" "r_fd s2 = r_fd s1"
      by blast
    from True have "dropWhile (\<lambda>c. c \<noteq> LF) (window s) \<noteq> []" by simp
    then have "length (tl (dropWhile (\<lambda>c. c \<noteq> LF) (window s))) < length (dropWhile (\<lambda>c. c \<noteq> LF) (window s))"
      by (cases "dropWhile (\<lambda>c. c \<noteq> LF) (window s)") simp_all
    also have "\<dots> \<le> length (window s)" by (rule length_dropWhile_le)
    finally have "length ?rem' < length rem" by (simp add: rem)
    from lines [OF this id] have "completes chunk file True s2 ?rem'" .
    moreover from lw eb have "length (window s) \<le> BUF_SIZE" by simp
    from expected_line [OF True this, of "drop (r_readPointer s) file"]
    have "expected rem = (None, False, ?line) # expected ?rem'" by (simp add: rem)
    ultimately have "finishes chunk file False s1 (emitted s @ expected rem)
        (delivered s @ expected rem) (closed_fds s @ [r_fd s])"
      using c e2 d2 c2 so by (simp add: completes_def finishes_def same_obs_def)
    with l show ?thesis by blast
  next
    case False
    show ?thesis
    proof (cases "r_pos s = 0 \<and> r_end s = BUF_SIZE")
      case True
      with loop_too_large [OF sc False]
      have l: "loop s = Some (close (emit (Some LineTooLarge, False, []) s))" by simp
      from True lw have "length (window s) = BUF_SIZE" by simp
      from expected_too_large [OF False this, of "drop (r_readPointer s) file"]
      have "expected rem = [(Some LineTooLarge, False, [])]" by (simp add: rem)
      with closing_finishes [OF opn nt pr lis, of chunk "file" "(Some LineTooLarge, False, [])"] l
      show ?thesis by simp
    next
      case room: False
      from loop_refill [OF sc False room] obtain s1 where l: "loop s = Some s1"
        and so: "same_obs s s1" and f: "fetching file s1 rem"
        and rp: "r_readPointer s1 = r_readPointer s"
        by blast
      from fetch [OF f rp] so
      have "finishes chunk file False s1 (emitted s @ expected rem)
        (delivered s @ expected rem) (closed_fds s @ [r_fd s])"
        by (simp add: completes_def same_obs_def)
      with l show ?thesis by blast
    qed
  qed
qed

lemma complete_read_fetched:
  "pending_reads s = rq # rest \<Longrightarrow> r_buffer s = Some b \<Longrightarrow>
   complete_read (Fetched bytes) s =
     refill_callback None (length (take (rq_length rq) bytes))
       (s\<lparr>pending_reads := rest,
          r_buffer := Some (store b (rq_offset rq) (take (rq_length rq) bytes))\<rparr>)"
  by (simp add: complete_read_def Let_def)

lemma fetch_eof:
  assumes f: "fetching file s rem" and over: "length file \<le> r_readPointer s"
  shows "completes chunk file False s rem"
proof -
  from f obtain b where b: "r_buffer s = Some b" by (auto simp: fetching_def)
  let ?rq = "\<lparr>rq_offset = r_end s, rq_length = BUF_SIZE - r_end s, rq_position = r_readPointer s\<rparr>"
  from f have pr: "pending_reads s = ?rq # []" and nt: "nextTicks s = []" and rd: "r_reading s"
    and pos: "r_pos s = 0" and lis: "listeners s" and small: "r_end s < BUF_SIZE"
    and rem: "rem = window s @ drop (r_readPointer s) file" and lf: "LF \<notin> set (window s)"
    by (simp_all add: fetching_def)
  have w: "window s = map b [0 ..< r_end s]" using b pos by (simp add: window_def)
  from over have no_bytes: "fs_read chunk file ?rq = []" by (simp add: fs_read_def)
  from over rem have rem_w: "rem = window s" by simp
  let ?s2 = "s\<lparr>pending_reads := [], r_buffer := Some b, r_eof := True\<rparr>"
  have cr: "complete_read (Fetched (fs_read chunk file ?rq)) s = emit_line (r_end s) ?s2"
    unfolding no_bytes
    using rd by (simp add: complete_read_fetched [OF pr b] refill_callback_def Let_def)
  have c: "consume chunk file False s =
      (case emit_line (r_end s) ?s2 of None \<Rightarrow> None | Some s' \<Rightarrow> consume chunk file False s')"
    using consume_read [OF nt pr, of chunk "file" False] cr by simp
  show ?thesis
  proof (cases "r_end s = 0")
    case True
    let ?s3 = "s\<lparr>pending_reads := [], r_buffer := Some b, r_eof := True, r_reading := False\<rparr>"
    from True pos have "emit_line (r_end s) ?s2 = Some (close (emit (None, True, []) ?s3))"
      by (simp add: emit_line_def Let_def)
    with c have "consume chunk file False s = consume chunk file False (close (emit (None, True, []) ?s3))"
      by simp
    moreover have "finishes chunk file False (close (emit (None, True, []) ?s3))
        (emitted ?s3 @ [(None, True, [])]) (delivered ?s3 @ [(None, True, [])])
        (closed_fds ?s3 @ [r_fd ?s3])"
      using b nt lis by (intro closing_finishes) simp_all
    moreover from True w rem_w have "rem = []" by simp
    then have "expected rem = [(None, True, [])]"
      using expected_last [of "[]"] small by simp
    ultimately show ?thesis by (simp add: completes_def finishes_def)
  next
    case False
    let ?line = "strip_cr (window s)"
    let ?s3 = "s\<lparr>pending_reads := [], r_buffer := Some b, r_eof := True, r_reading := False,
                 r_pos := Suc (r_end s),
                 nextTicks := [EmitLine ?line]\<rparr>"
    from small have "r_end s \<le> BUF_SIZE" by simp
    from strip_cr_buffer [OF this, of b 0]
    have line: "toString b 0 (if r_end s \<noteq> 0 \<and> buf_get b (r_end s - 1) = Some CR
                   then r_end s - 1 else r_end s) = ?line"
      by (simp only: w)
    from False pos have "emit_line (r_end s) ?s2 = Some ?s3"
      using b nt line by (simp add: emit_line_def Let_def)
    with c have "consume chunk file False s = consume chunk file False ?s3" by simp
    moreover have "finishes chunk file False ?s3
        (emitted ?s3 @ [(None, False, ?line), (None, True, [])])
        (delivered ?s3 @ [(None, False, ?line), (None, True, [])])
        (closed_fds ?s3 @ [r_fd ?s3])"
      using b lis by (intro last_line_finishes) simp_all
    moreover from False w have "window s \<noteq> []" by simp
    then have "expected rem = [(None, False, ?line), (None, True, [])]"
      using expected_last [OF lf, folded rem_w] small w rem_w by simp
    ultimately show ?thesis by (simp add: completes_def finishes_def)
  qed
qed

lemma fetch_data:
  assumes f: "fetching file s rem" and more: "r_readPointer s < length file"
  shows "\<exists>s3. consume chunk file False s =
             (case loop s3 of None \<Rightarrow> None | Some s' \<Rightarrow> consume chunk file False s') \<and>
           scanning file s3 rem \<and> same_obs s s3 \<and> r_readPointer s < r_readPointer s3"
proof -
  from f obtain b where b: "r_buffer s = Some b" by (auto simp: fetching_def)
  let ?rq = "\<lparr>rq_offset = r_end s, rq_length = BUF_SIZE - r_end s, rq_position = r_readPointer s\<rparr>"
  from f have pr: "pending_reads s = ?rq # []" and nt: "nextTicks s = []" and rd: "r_reading s"
    and pos: "r_pos s = 0" and lis: "listeners s" and small: "r_end s < BUF_SIZE"
    and rem: "rem = window s @ drop (r_readPointer s) file" and ne: "\<not> r_eof s"
    by (simp_all add: fetching_def)
  have w: "window s = map b [0 ..< r_end s]" using b pos by (simp add: window_def)
  define rest where "rest = drop (r_readPointer s) file"
  define data where "data = take (BUF_SIZE - r_end s) (fs_read chunk file ?rq)"
  define n where "n = length data"
  have "data = take (min (BUF_SIZE - r_end s) (Suc (chunk (r_readPointer s)))) rest"
    by (simp add: data_def rest_def fs_read_def)
  then have data: "data = take n rest"
    unfolding n_def by (metis append_eq_conv_conj append_take_drop_id)
  from more small have n: "0 < n" by (simp add: n_def data_def fs_read_def)
  have nb: "r_end s + n \<le> BUF_SIZE" using small by (simp add: n_def data_def)
  define s3 where "s3 = s\<lparr>pending_reads := [], r_buffer := Some (store b (r_end s) data),
               r_end := r_end s + n, r_readPointer := r_readPointer s + n\<rparr>"
  have "complete_read (Fetched (fs_read chunk file ?rq)) s =
      refill_callback None n (s\<lparr>pending_reads := [], r_buffer := Some (store b (r_end s) data)\<rparr>)"
    unfolding n_def data_def by (simp add: complete_read_fetched [OF pr b])
  also have "\<dots> = loop s3"
    using rd n by (simp add: refill_callback_def s3_def)
  finally have cr: "complete_read (Fetched (fs_read chunk file ?rq)) s = loop s3" .
  have c: "consume chunk file False s =
      (case loop s3 of None \<Rightarrow> None | Some s' \<Rightarrow> consume chunk file False s')"
    using consume_read [OF nt pr, of chunk "file" False] cr by simp
  have "window s3 = map (store b (r_end s) data) [0 ..< r_end s + length data]"
    using pos by (simp add: window_def s3_def n_def)
  also have "\<dots> = map b [0 ..< r_end s] @ data"
    by (rule store_window) simp
  finally have w3: "window s3 = window s @ data" by (simp add: w)
  have "drop (r_readPointer s3) file = drop n rest"
    by (simp add: s3_def rest_def add.commute)
  then have "window s3 @ drop (r_readPointer s3) file = window s @ (take n rest @ drop n rest)"
    using data by (simp add: w3)
  then have "window s3 @ drop (r_readPointer s3) file = window s @ rest"
    by (simp only: append_take_drop_id)
  then have "rem = window s3 @ drop (r_readPointer s3) file"
    by (simp only: rem rest_def)
  moreover have "r_buffer s3 \<noteq> None" "r_pos s3 \<le> r_end s3" "r_end s3 \<le> BUF_SIZE" "r_reading s3"
    "\<not> r_eof s3" "listeners s3" "nextTicks s3 = []" "pending_reads s3 = []"
    using pos nb rd ne lis nt by (simp_all add: s3_def)
  ultimately have "scanning file s3 rem"
    unfolding scanning_def by blast
  moreover have "same_obs s s3" by (simp add: same_obs_def s3_def)
  moreover have "r_readPointer s < r_readPointer s3" using n by (simp add: s3_def)
  ultimately show ?thesis using c by blast
qed

lemma fetch_completes:
  assumes f: "fetching file s rem"
    and lines: "\<And>s2 rem2. length rem2 < length rem \<Longrightarrow> idle file s2 rem2 \<Longrightarrow>
                  completes chunk file True s2 rem2"
  shows "completes chunk file False s rem"
  using f
proof (induction "length file - r_readPointer s" arbitrary: s rule: less_induct)
  case less
  show ?case
  proof (cases "r_readPointer s < length file")
    case False
    then have "length file \<le> r_readPointer s" by simp
    with less.prems show ?thesis by (rule fetch_eof)
  next
    case True
    from fetch_data [OF less.prems True, of chunk] obtain s3 where
      c: "consume chunk file False s =
            (case loop s3 of None \<Rightarrow> None | Some s' \<Rightarrow> consume chunk file False s')"
      and sc: "scanning file s3 rem" and so: "same_obs s s3"
      and rp: "r_readPointer s < r_readPointer s3"
      by blast
    have "completes chunk file False s1 rem"
      if "fetching file s1 rem" "r_readPointer s1 = r_readPointer s3" for s1
    proof -
      from that(2) rp True have "length file - r_readPointer s1 < length file - r_readPointer s"
        by simp
      then show ?thesis using that(1) by (rule less.hyps)
    qed
    from scan_finishes [OF sc lines this] obtain s1 where l: "loop s3 = Some s1"
      and fin: "finishes chunk file False s1 (emitted s3 @ expected rem)
                  (delivered s3 @ expected rem) (closed_fds s3 @ [r_fd s3])"
      by blast
    from c l have "consume chunk file False s = consume chunk file False s1" by simp
    with fin so show ?thesis
      by (simp add: completes_def finishes_def same_obs_def)
  qed
qed

lemma idle_completes: "idle file s rem \<Longrightarrow> completes chunk file True s rem"
proof (induction "length rem" arbitrary: s rem rule: less_induct)
  case less
  let ?s0 = "s\<lparr>r_reading := True\<rparr>"
  from less.prems have nt: "nextTicks s = []" and pr: "pending_reads s = []"
    and n: "reader_next s = loop ?s0"
    by (auto simp: idle_def reader_next_def)
  have "window ?s0 = window s" by (rule window_cong) simp_all
  with less.prems have sc: "scanning file ?s0 rem"
    by (simp add: idle_def scanning_def)
  have lines: "completes chunk file True s2 rem2"
    if "length rem2 < length rem" "idle file s2 rem2" for s2 rem2
    using that by (rule less.hyps)
  have "completes chunk file False s1 rem" if "fetching file s1 rem" for s1
    using that lines by (rule fetch_completes)
  from scan_finishes [OF sc lines this] obtain s1 where l: "loop ?s0 = Some s1"
    and fin: "finishes chunk file False s1 (emitted ?s0 @ expected rem)
                (delivered ?s0 @ expected rem) (closed_fds ?s0 @ [r_fd ?s0])"
    by blast
  from consume_ask [OF nt pr, of chunk "file"] n l
  have "consume chunk file True s = consume chunk file False s1" by simp
  with fin show ?case by (simp add: completes_def finishes_def)
qed

lemma consume_expected:
  "\<exists>s'. consume chunk file True (started fd mem) = Some s' \<and>
        emitted s' = expected file \<and> delivered s' = expected file \<and>
        closed_fds s' = [fd] \<and> r_buffer s' = None"
proof -
  have "idle file (started fd mem) file"
    by (simp add: idle_def started_def on_line_def ReadFileAsync_def window_def)
  from idle_completes [OF this, of chunk] show ?thesis
    by (simp add: completes_def finishes_def started_def on_line_def ReadFileAsync_def)
qed

text \<open>The lines of a file, and the expected events of a file whose lines fit the buffer.\<close>

lemma split_at_lf:
  assumes "LF \<in> set s"
  shows "s = takeWhile (\<lambda>c. c \<noteq> LF) s @ LF # tl (dropWhile (\<lambda>c. c \<noteq> LF) s)"
proof -
  from assms have ne: "dropWhile (\<lambda>c. c \<noteq> LF) s \<noteq> []" by simp
  then have "hd (dropWhile (\<lambda>c. c \<noteq> LF) s) = LF"
    using hd_dropWhile [of "\<lambda>c. c \<noteq> LF" s] by simp
  with ne have "dropWhile (\<lambda>c. c \<noteq> LF) s = LF # tl (dropWhile (\<lambda>c. c \<noteq> LF) s)"
    by (cases "dropWhile (\<lambda>c. c \<noteq> LF) s") simp_all
  then have "takeWhile (\<lambda>c. c \<noteq> LF) s @ LF # tl (dropWhile (\<lambda>c. c \<noteq> LF) s)
      = takeWhile (\<lambda>c. c \<noteq> LF) s @ dropWhile (\<lambda>c. c \<noteq> LF) s"
    by simp
  then show ?thesis by simp
qed

lemma takeWhile_lf: "LF \<notin> set l \<Longrightarrow> takeWhile (\<lambda>c. c \<noteq> LF) (l @ LF # r) = l"
  by (induction l) auto

lemma dropWhile_lf: "LF \<notin> set l \<Longrightarrow> dropWhile (\<lambda>c. c \<noteq> LF) (l @ LF # r) = LF # r"
  by (induction l) auto

lemma no_lf_takeWhile: "LF \<notin> set (takeWhile (\<lambda>c. c \<noteq> LF) s)"
  by (auto dest: set_takeWhileD)

lemma terminated_lines_count: "length (terminated_lines s) = count_list s LF"
proof (induction s rule: terminated_lines.induct)
  case (1 s)
  show ?case
  proof (cases "LF \<in> set s")
    case True
    let ?l = "takeWhile (\<lambda>c. c \<noteq> LF) s" and ?r = "tl (dropWhile (\<lambda>c. c \<noteq> LF) s)"
    have "count_list s LF = count_list (?l @ LF # ?r) LF"
      using split_at_lf [OF True] by simp
    also have "\<dots> = Suc (count_list ?r LF)"
      using no_lf_takeWhile [of s] by (simp add: count_list_0_iff)
    finally show ?thesis
      using True "1.IH" by (simp add: terminated_lines.simps [of s])
  next
    case False
    then show ?thesis by (simp add: terminated_lines.simps [of s] count_list_0_iff)
  qed
qed

lemma lines_reassemble:
  "concat (map (\<lambda>l. l @ [LF]) (terminated_lines s)) @ trailing_chunk s = s"
proof (induction s rule: terminated_lines.induct)
  case (1 s)
  show ?case
  proof (cases "LF \<in> set s")
    case True
    let ?l = "takeWhile (\<lambda>c. c \<noteq> LF) s" and ?r = "tl (dropWhile (\<lambda>c. c \<noteq> LF) s)"
    from True "1.IH" have "concat (map (\<lambda>l. l @ [LF]) (terminated_lines ?r)) @ trailing_chunk ?r = ?r"
      by simp
    then have "concat (map (\<lambda>l. l @ [LF]) (terminated_lines s)) @ trailing_chunk s = ?l @ LF # ?r"
      using True by (simp add: terminated_lines.simps [of s] trailing_chunk.simps [of s])
    with split_at_lf [OF True] show ?thesis by simp
  next
    case False
    then show ?thesis by (simp add: terminated_lines.simps [of s] trailing_chunk.simps [of s])
  qed
qed

lemma lines_without_lf:
  "(\<forall>l \<in> set (terminated_lines s). LF \<notin> set l) \<and> LF \<notin> set (trailing_chunk s)"
proof (induction s rule: terminated_lines.induct)
  case (1 s)
  show ?case
  proof (cases "LF \<in> set s")
    case True
    with "1.IH" no_lf_takeWhile [of s] show ?thesis
      by (simp add: terminated_lines.simps [of s] trailing_chunk.simps [of s])
  next
    case False
    then show ?thesis by (simp add: terminated_lines.simps [of s] trailing_chunk.simps [of s])
  qed
qed

lemma expected_fits:
  assumes "\<forall>l \<in> set (terminated_lines s). length l < BUF_SIZE"
    and "length (trailing_chunk s) < BUF_SIZE"
  shows "expected s =
           map line_event (terminated_lines s) @
           (if trailing_chunk s = [] then [] else [line_event (trailing_chunk s)]) @
           [(None, True, [])]"
  using assms
proof (induction s rule: terminated_lines.induct)
  case (1 s)
  show ?case
  proof (cases "LF \<in> set s")
    case True
    let ?l = "takeWhile (\<lambda>c. c \<noteq> LF) s" and ?r = "tl (dropWhile (\<lambda>c. c \<noteq> LF) s)"
    have tl: "terminated_lines s = ?l # terminated_lines ?r" and tc: "trailing_chunk s = trailing_chunk ?r"
      using True by (simp_all add: terminated_lines.simps [of s] trailing_chunk.simps [of s])
    from "1.prems" tl have short: "length ?l < BUF_SIZE"
      and rest: "\<forall>l \<in> set (terminated_lines ?r). length l < BUF_SIZE" by simp_all
    from "1.IH" [OF True rest] "1.prems"(2) tc
    have IH: "expected ?r = map line_event (terminated_lines ?r) @
           (if trailing_chunk ?r = [] then [] else [line_event (trailing_chunk ?r)]) @
           [(None, True, [])]" by simp
    have "LF \<in> set (?l @ [LF])" by simp
    moreover from short have "length (?l @ [LF]) \<le> BUF_SIZE" by simp
    ultimately have "expected ((?l @ [LF]) @ ?r) =
        (None, False, strip_cr (takeWhile (\<lambda>c. c \<noteq> LF) (?l @ [LF]))) #
          expected (tl (dropWhile (\<lambda>c. c \<noteq> LF) (?l @ [LF])) @ ?r)"
      by (rule expected_line)
    moreover have "takeWhile (\<lambda>c. c \<noteq> LF) (?l @ [LF]) = ?l"
      using no_lf_takeWhile [of s] by (rule takeWhile_lf)
    moreover have "dropWhile (\<lambda>c. c \<noteq> LF) (?l @ [LF]) = [LF]"
      using no_lf_takeWhile [of s] by (rule dropWhile_lf)
    moreover have "(?l @ [LF]) @ ?r = s" using split_at_lf [OF True] by simp
    ultimately have "expected s = line_event ?l # expected ?r"
      by (simp add: line_event_def)
    with IH tl tc show ?thesis by simp
  next
    case False
    then have tl: "terminated_lines s = []" and tc: "trailing_chunk s = s"
      by (simp_all add: terminated_lines.simps [of s] trailing_chunk.simps [of s])
    from "1.prems"(2) tc have "length s < BUF_SIZE" by simp
    from expected_last [OF False this] tl tc show ?thesis
      by (simp add: line_event_def)
  qed
qed

lemma CR_not_LF [simp]: "CR \<noteq> LF" "LF \<noteq> CR"
  by (simp_all add: CR_def LF_def)

lemma strip_cr_snoc [simp]: "strip_cr (l @ [CR]) = l"
  by (simp add: strip_cr_def)

lemma expected_lf_line:
  assumes "LF \<notin> set l" and "length l < BUF_SIZE"
  shows "expected (l @ LF # rest) = (None, False, strip_cr l) # expected rest"
proof -
  have "LF \<in> set (l @ [LF])" by simp
  moreover from assms have "length (l @ [LF]) \<le> BUF_SIZE" by simp
  ultimately have "expected ((l @ [LF]) @ rest) =
      (None, False, strip_cr (takeWhile (\<lambda>c. c \<noteq> LF) (l @ [LF]))) #
        expected (tl (dropWhile (\<lambda>c. c \<noteq> LF) (l @ [LF])) @ rest)"
    by (rule expected_line)
  moreover have "takeWhile (\<lambda>c. c \<noteq> LF) (l @ [LF]) = l"
    using assms(1) by (rule takeWhile_lf)
  moreover have "dropWhile (\<lambda>c. c \<noteq> LF) (l @ [LF]) = [LF]"
    using assms(1) by (rule dropWhile_lf)
  ultimately show ?thesis by simp
qed

lemma expected_crlf_line:
  assumes "LF \<notin> set l" and "length l + 1 < BUF_SIZE"
  shows "expected (l @ CR # LF # rest) = (None, False, l) # expected rest"
proof -
  from assms have "LF \<notin> set (l @ [CR])" "length (l @ [CR]) < BUF_SIZE" by simp_all
  from expected_lf_line [OF this, of rest] show ?thesis by simp
qed

lemma expected_overlong:
  assumes "LF \<notin> set l" and "BUF_SIZE \<le> length l"
  shows "expected (l @ rest) = [(Some LineTooLarge, False, [])]"
proof -
  have "l @ rest = take BUF_SIZE l @ (drop BUF_SIZE l @ rest)" by simp
  moreover from assms(1) have "LF \<notin> set (take BUF_SIZE l)" by (auto dest: in_set_takeD)
  moreover from assms(2) have "length (take BUF_SIZE l) = BUF_SIZE" by simp
  ultimately show ?thesis by (metis expected_too_large)
qed

lemma expected_prefix:
  assumes "\<forall>p \<in> set (terminated_lines pre). length p < BUF_SIZE" and "trailing_chunk pre = []"
  shows "expected (pre @ x) = map line_event (terminated_lines pre) @ expected x"
  using assms
proof (induction pre rule: terminated_lines.induct)
  case (1 s)
  show ?case
  proof (cases "LF \<in> set s")
    case True
    let ?l = "takeWhile (\<lambda>c. c \<noteq> LF) s" and ?r = "tl (dropWhile (\<lambda>c. c \<noteq> LF) s)"
    have tl: "terminated_lines s = ?l # terminated_lines ?r" and tc: "trailing_chunk s = trailing_chunk ?r"
      using True by (simp_all add: terminated_lines.simps [of s] trailing_chunk.simps [of s])
    from "1.prems" tl have short: "length ?l < BUF_SIZE"
      and rest: "\<forall>l \<in> set (terminated_lines ?r). length l < BUF_SIZE" by simp_all
    from "1.IH" [OF True rest] "1.prems"(2) tc
    have IH: "expected (?r @ x) = map line_event (terminated_lines ?r) @ expected x" by simp
    have eq: "s @ x = ?l @ LF # (?r @ x)"
      using split_at_lf [OF True] by (metis append_Cons append_assoc)
    have "expected (?l @ LF # (?r @ x)) = (None, False, strip_cr ?l) # expected (?r @ x)"
      by (rule expected_lf_line [OF no_lf_takeWhile short])
    then have "expected (s @ x) = (None, False, strip_cr ?l) # expected (?r @ x)"
      by (simp only: eq)
    with IH tl show ?thesis by (simp add: line_event_def)
  next
    case False
    with "1.prems"(2) have "s = []" by (simp add: trailing_chunk.simps [of s])
    then show ?thesis by (simp add: terminated_lines.simps [of "[]"])
  qed
qed

section \<open>Splitting a file into lines\<close>

text \<open>
  Claim C1, as amended. Take any file in which every run of bytes in front of a line
  feed, and the chunk behind the last line feed, is shorter than \<open>BUF_SIZE\<close>, read in
  pieces of any sizes, and a consumer that calls \<open>next()\<close> first and then again after
  each line it is given. The loop ends, and the reader has emitted, and delivered,
  exactly: one line for each of the \<open>N\<close> line feeds, in the order of the file and with
  a carriage return before the line feed left out; one more line for the trailing
  chunk if it is not empty; and then the end of the file, once. So a file that ends
  with a line feed gets no empty last line, and an empty file the end of the file only.
  The lines are the file: they hold no line feed, there are \<open>N\<close> of them, and joined by
  line feeds and followed by the trailing chunk they give the file back.
\<close>

theorem reader_splits_lines:
  assumes "\<forall>l \<in> set (terminated_lines file). length l < BUF_SIZE"
    and "length (trailing_chunk file) < BUF_SIZE"
  shows "\<exists>s'. consume chunk file True (started fd mem) = Some s' \<and>
           emitted s' =
             map (\<lambda>l. (None, False, strip_cr l)) (terminated_lines file) @
             (if trailing_chunk file = [] then [] else [(None, False, strip_cr (trailing_chunk file))]) @
             [(None, True, [])] \<and>
           delivered s' = emitted s' \<and>
           length (terminated_lines file) = count_list file LF \<and>
           concat (map (\<lambda>l. l @ [LF]) (terminated_lines file)) @ trailing_chunk file = file \<and>
           (\<forall>l \<in> set (terminated_lines file). LF \<notin> set l) \<and> LF \<notin> set (trailing_chunk file)"
proof -
  from consume_expected [of chunk "file" fd mem] obtain s' where
    "consume chunk file True (started fd mem) = Some s'" "emitted s' = expected file"
    "delivered s' = expected file"
    by blast
  moreover have "map line_event (terminated_lines file) = map (\<lambda>l. (None, False, strip_cr l)) (terminated_lines file)"
    by (simp add: line_event_def)
  ultimately show ?thesis
    using expected_fits [OF assms] terminated_lines_count [of "file"] lines_reassemble [of "file"]
      lines_without_lf [of "file"]
    by (simp add: line_event_def)
qed

text \<open>
  Three lines, one of them empty and one ended by CR LF, and a trailing chunk, read three
  bytes at a time; and the empty file.
\<close>

theorem reader_splits_lines_witness:
  "\<exists>s' s''.
     consume (\<lambda>_. 2) (''ab'' @ [CR, LF] @ ''cd'' @ [LF, LF] @ ''ef'') True (started 3 (\<lambda>_. CHR 0x00))
       = Some s' \<and>
     emitted s' = [(None, False, ''ab''), (None, False, ''cd''), (None, False, ''''),
                   (None, False, ''ef''), (None, True, '''')] \<and>
     delivered s' = emitted s' \<and>
     consume (\<lambda>_. 2) '''' True (started 3 (\<lambda>_. CHR 0x00)) = Some s'' \<and>
     emitted s'' = [(None, True, '''')]"
proof -
  let ?f = "''ab'' @ [CR, LF] @ ''cd'' @ [LF, LF] @ ''ef''"
  have t: "terminated_lines ?f = [''ab'' @ [CR], ''cd'', '''']" by code_simp
  have c: "trailing_chunk ?f = ''ef''" by code_simp
  have t0: "terminated_lines '''' = []" by (simp add: terminated_lines.simps)
  have c0: "trailing_chunk '''' = ''''" by (simp add: trailing_chunk.simps)
  have h1: "\<forall>l \<in> set (terminated_lines ?f). length l < BUF_SIZE"
    unfolding t by (simp add: BUF_SIZE_def)
  have h2: "length (trailing_chunk ?f) < BUF_SIZE"
    unfolding c by (simp add: BUF_SIZE_def)
  have h3: "\<forall>l \<in> set (terminated_lines ''''). length l < BUF_SIZE"
    unfolding t0 by simp
  have h4: "length (trailing_chunk '''') < BUF_SIZE"
    unfolding c0 by (simp add: BUF_SIZE_def)
  from reader_splits_lines [OF h1 h2, of "\<lambda>_. 2" 3 "\<lambda>_. CHR 0x00"] obtain s' where
    1: "consume (\<lambda>_. 2) ?f True (started 3 (\<lambda>_. CHR 0x00)) = Some s'"
    and 2: "emitted s' = map (\<lambda>l. (None, False, strip_cr l)) (terminated_lines ?f) @
             (if trailing_chunk ?f = [] then [] else [(None, False, strip_cr (trailing_chunk ?f))]) @
             [(None, True, [])]"
    and 3: "delivered s' = emitted s'"
    by (elim exE conjE)
  from reader_splits_lines [OF h3 h4, of "\<lambda>_. 2" 3 "\<lambda>_. CHR 0x00"] obtain s'' where
    4: "consume (\<lambda>_. 2) '''' True (started 3 (\<lambda>_. CHR 0x00)) = Some s''"
    and 5: "emitted s'' = map (\<lambda>l. (None, False, strip_cr l)) (terminated_lines '''') @
             (if trailing_chunk '''' = [] then [] else [(None, False, strip_cr (trailing_chunk ''''))]) @
             [(None, True, [])]"
    by (elim exE conjE)
  from 2 have 6: "emitted s' = [(None, False, ''ab''), (None, False, ''cd''), (None, False, ''''),
                   (None, False, ''ef''), (None, True, '''')]"
    unfolding t c by (simp add: strip_cr_def CR_def)
  from 5 have 7: "emitted s'' = [(None, True, '''')]"
    unfolding t0 c0 by simp
  from 1 6 3 4 7 show ?thesis by blast
qed

text \<open>
  Claim C1 as it is stated fails for a file with a long line: \<open>BUF_SIZE\<close> letters and a
  line feed hold one line terminator, but the reader emits the capacity error, no line
  and no end of file.
\<close>

theorem long_line_counterexample:
  "count_list (replicate BUF_SIZE (CHR ''a'') @ [LF]) LF = 1 \<and>
   map_option emitted
     (consume bytewise (replicate BUF_SIZE (CHR ''a'') @ [LF]) True (started 3 zeroed))
   = Some [(Some LineTooLarge, False, [])]"
proof -
  have "LF \<notin> set (replicate BUF_SIZE (CHR ''a''))" by (simp add: LF_def)
  then have "expected (replicate BUF_SIZE (CHR ''a'') @ [LF]) = [(Some LineTooLarge, False, [])]"
    by (rule expected_overlong) simp
  moreover have "count_list (replicate BUF_SIZE (CHR ''a'') @ [LF]) LF = 1"
    by (simp add: count_list_0_iff LF_def)
  ultimately show ?thesis
    using consume_expected [of bytewise "replicate BUF_SIZE (CHR ''a'') @ [LF]" 3 zeroed]
    by auto
qed

section \<open>The capacity of the buffer\<close>

text \<open>
  Claim C8, as amended. Let a line \<open>l\<close> (bytes without a line feed; a carriage return
  before the line feed counts as one of them) come after any lines \<open>pre\<close> that fit the
  buffer. If \<open>l\<close> is shorter than \<open>BUF_SIZE\<close>, so in particular if its length is
  \<open>BUF_SIZE - 1\<close>, it is delivered, whether a line feed follows it or the file ends
  with it. If \<open>l\<close> has \<open>BUF_SIZE\<close> bytes or more, the lines before it are delivered,
  then the capacity error, and the reader is closed.
\<close>

theorem capacity_boundary:
  assumes "trailing_chunk pre = []" and "\<forall>p \<in> set (terminated_lines pre). length p < BUF_SIZE"
    and "LF \<notin> set l"
  shows "if length l < BUF_SIZE
         then (\<exists>s1 s2 s3.
                 consume chunk (pre @ l @ LF # rest) True (started fd mem) = Some s1 \<and>
                 consume chunk rest True (started fd mem) = Some s2 \<and>
                 consume chunk (pre @ l) True (started fd mem) = Some s3 \<and>
                 emitted s1 = map (\<lambda>p. (None, False, strip_cr p)) (terminated_lines pre) @
                                (None, False, strip_cr l) # emitted s2 \<and>
                 emitted s3 = map (\<lambda>p. (None, False, strip_cr p)) (terminated_lines pre) @
                                (if l = [] then [] else [(None, False, strip_cr l)]) @
                                [(None, True, [])])
         else (\<exists>s4.
                 consume chunk (pre @ l @ rest) True (started fd mem) = Some s4 \<and>
                 emitted s4 = map (\<lambda>p. (None, False, strip_cr p)) (terminated_lines pre) @
                                [(Some LineTooLarge, False, [])] \<and>
                 delivered s4 = emitted s4 \<and>
                 r_buffer s4 = None \<and> closed_fds s4 = [fd])"
proof -
  have m: "map line_event (terminated_lines pre) = map (\<lambda>p. (None, False, strip_cr p)) (terminated_lines pre)"
    by (simp add: line_event_def)
  note pre = expected_prefix [OF assms(2,1), unfolded m]
  show ?thesis
  proof (cases "length l < BUF_SIZE")
    case True
    from consume_expected [of chunk "pre @ l @ LF # rest" fd mem] obtain s1 where
      s1: "consume chunk (pre @ l @ LF # rest) True (started fd mem) = Some s1"
      "emitted s1 = expected (pre @ l @ LF # rest)" by blast
    from consume_expected [of chunk rest fd mem] obtain s2 where
      s2: "consume chunk rest True (started fd mem) = Some s2" "emitted s2 = expected rest" by blast
    from consume_expected [of chunk "pre @ l" fd mem] obtain s3 where
      s3: "consume chunk (pre @ l) True (started fd mem) = Some s3"
      "emitted s3 = expected (pre @ l)" by blast
    have "emitted s1 = map (\<lambda>p. (None, False, strip_cr p)) (terminated_lines pre) @
                                (None, False, strip_cr l) # emitted s2"
      using s1(2) s2(2) pre [of "l @ LF # rest"] expected_lf_line [OF assms(3) True, of rest] by simp
    moreover have "emitted s3 = map (\<lambda>p. (None, False, strip_cr p)) (terminated_lines pre) @
                                (if l = [] then [] else [(None, False, strip_cr l)]) @
                                [(None, True, [])]"
      using s3(2) pre [of l] expected_last [OF assms(3) True] by simp
    ultimately show ?thesis using True s1(1) s2(1) s3(1) by auto
  next
    case False
    then have big: "BUF_SIZE \<le> length l" by simp
    from consume_expected [of chunk "pre @ l @ rest" fd mem] obtain s4 where
      s4: "consume chunk (pre @ l @ rest) True (started fd mem) = Some s4"
      "emitted s4 = expected (pre @ l @ rest)" "delivered s4 = expected (pre @ l @ rest)"
      "closed_fds s4 = [fd]" "r_buffer s4 = None" by blast
    have "expected (pre @ l @ rest) = map (\<lambda>p. (None, False, strip_cr p)) (terminated_lines pre) @
                                [(Some LineTooLarge, False, [])]"
      using pre [of "l @ rest"] expected_overlong [OF assms(3) big, of rest] by simp
    with s4 False show ?thesis by auto
  qed
qed

text \<open>A line of \<open>BUF_SIZE - 1\<close> letters before a line feed, and \<open>BUF_SIZE\<close> letters.\<close>

theorem capacity_boundary_witness:
  "\<exists>s1 s4.
     consume (\<lambda>_. 0) (replicate (BUF_SIZE - 1) (CHR ''a'') @ [LF]) True (started 3 (\<lambda>_. CHR 0x00))
       = Some s1 \<and>
     emitted s1 = [(None, False, replicate (BUF_SIZE - 1) (CHR ''a'')), (None, True, [])] \<and>
     consume (\<lambda>_. 0) (replicate BUF_SIZE (CHR ''a'')) True (started 3 (\<lambda>_. CHR 0x00)) = Some s4 \<and>
     emitted s4 = [(Some LineTooLarge, False, [])]"
proof -
  let ?init = "started 3 (\<lambda>_. CHR 0x00)"
  let ?l = "replicate (BUF_SIZE - 1) (CHR ''a'')"
  let ?big = "replicate BUF_SIZE (CHR ''a'')"
  have t0: "terminated_lines [] = []" by (simp add: terminated_lines.simps)
  have c0: "trailing_chunk [] = []" by (simp add: trailing_chunk.simps)
  have h2: "\<forall>p \<in> set (terminated_lines []). length p < BUF_SIZE" unfolding t0 by simp
  have l: "LF \<notin> set ?l" by (simp add: LF_def)
  have b: "LF \<notin> set ?big" by (simp add: LF_def)
  have e: "LF \<notin> set []" by simp
  have sl: "strip_cr ?l = ?l" by (simp add: strip_cr_def BUF_SIZE_def CR_def)
  from capacity_boundary [OF c0 h2 l, of "\<lambda>_. 0" "[]" 3 "\<lambda>_. CHR 0x00"]
  obtain s1 s2 where 1: "consume (\<lambda>_. 0) (?l @ [LF]) True ?init = Some s1"
    and 2: "consume (\<lambda>_. 0) [] True ?init = Some s2"
    and 3: "emitted s1 = (None, False, strip_cr ?l) # emitted s2"
    by (auto simp: BUF_SIZE_def t0)
  from capacity_boundary [OF c0 h2 e, of "\<lambda>_. 0" "[]" 3 "\<lambda>_. CHR 0x00"]
  obtain s3 where 4: "consume (\<lambda>_. 0) [] True ?init = Some s3"
    and 5: "emitted s3 = [(None, True, [])]"
    by (auto simp: BUF_SIZE_def t0)
  from capacity_boundary [OF c0 h2 b, of "\<lambda>_. 0" "[]" 3 "\<lambda>_. CHR 0x00"]
  obtain s4 where 6: "consume (\<lambda>_. 0) ?big True ?init = Some s4"
    and 7: "emitted s4 = [(Some LineTooLarge, False, [])]"
    by (auto simp: t0)
  from 2 4 5 have "emitted s2 = [(None, True, [])]" by simp
  with 3 sl have "emitted s1 = [(None, False, ?l), (None, True, [])]" by simp
  with 1 6 7 show ?thesis by blast
qed

text \<open>
  Claim C8 as it is stated fails when the terminator is CR LF: a line of \<open>BUF_SIZE - 1\<close>
  letters followed by CR LF fills the buffer before the line feed is seen, and the
  reader emits the capacity error.
\<close>

theorem crlf_boundary_counterexample:
  "map_option emitted
     (consume bytewise (replicate (BUF_SIZE - 1) (CHR ''a'') @ [CR, LF]) True (started 3 zeroed))
   = Some [(Some LineTooLarge, False, [])]"
proof -
  have "LF \<notin> set (replicate (BUF_SIZE - 1) (CHR ''a'') @ [CR])" by (simp add: LF_def CR_def)
  moreover have "BUF_SIZE \<le> length (replicate (BUF_SIZE - 1) (CHR ''a'') @ [CR])"
    by (simp add: BUF_SIZE_def)
  ultimately have "expected ((replicate (BUF_SIZE - 1) (CHR ''a'') @ [CR]) @ [LF])
      = [(Some LineTooLarge, False, [])]"
    by (rule expected_overlong)
  then show ?thesis
    using consume_expected [of bytewise "replicate (BUF_SIZE - 1) (CHR ''a'') @ [CR, LF]" 3 zeroed]
    by auto
qed

section \<open>Carriage returns\<close>

text \<open>
  Claim C4, as amended. Let \<open>l\<close> be the bytes of a line, without a line feed but with
  carriage returns anywhere, after any lines \<open>pre\<close> that fit the buffer. Followed by
  CR LF, the line is delivered as \<open>l\<close>, every carriage return in it kept. Followed by
  a line feed alone it is delivered as \<open>l\<close> too, unless \<open>l\<close> itself ends with a
  carriage return, which then is the one before the line feed and is left out. And at
  the end of a file without a final line feed, a carriage return that is the last byte
  is left out as well: \<open>l\<close> followed by CR is delivered as \<open>l\<close>.
\<close>

theorem carriage_return_stripping:
  assumes "trailing_chunk pre = []" and "\<forall>p \<in> set (terminated_lines pre). length p < BUF_SIZE"
    and "LF \<notin> set l" and "length l + 1 < BUF_SIZE"
  shows "\<exists>s1 s2 s3 s4.
           consume chunk (pre @ l @ CR # LF # rest) True (started fd mem) = Some s1 \<and>
           consume chunk (pre @ l @ LF # rest) True (started fd mem) = Some s2 \<and>
           consume chunk rest True (started fd mem) = Some s3 \<and>
           consume chunk (pre @ l @ [CR]) True (started fd mem) = Some s4 \<and>
           emitted s1 = map (\<lambda>p. (None, False, strip_cr p)) (terminated_lines pre) @
                          (None, False, l) # emitted s3 \<and>
           emitted s2 = map (\<lambda>p. (None, False, strip_cr p)) (terminated_lines pre) @
                          (None, False, if l \<noteq> [] \<and> last l = CR then butlast l else l) # emitted s3 \<and>
           emitted s4 = map (\<lambda>p. (None, False, strip_cr p)) (terminated_lines pre) @
                          [(None, False, l), (None, True, [])]"
proof -
  have m: "map line_event (terminated_lines pre) = map (\<lambda>p. (None, False, strip_cr p)) (terminated_lines pre)"
    by (simp add: line_event_def)
  note pre = expected_prefix [OF assms(2,1), unfolded m]
  from assms(4) have short: "length l < BUF_SIZE" by simp
  from assms(3,4) have cr: "LF \<notin> set (l @ [CR])" "length (l @ [CR]) < BUF_SIZE" by simp_all
  from consume_expected [of chunk "pre @ l @ CR # LF # rest" fd mem] obtain s1 where
    s1: "consume chunk (pre @ l @ CR # LF # rest) True (started fd mem) = Some s1"
    "emitted s1 = expected (pre @ l @ CR # LF # rest)" by blast
  from consume_expected [of chunk "pre @ l @ LF # rest" fd mem] obtain s2 where
    s2: "consume chunk (pre @ l @ LF # rest) True (started fd mem) = Some s2"
    "emitted s2 = expected (pre @ l @ LF # rest)" by blast
  from consume_expected [of chunk rest fd mem] obtain s3 where
    s3: "consume chunk rest True (started fd mem) = Some s3" "emitted s3 = expected rest" by blast
  from consume_expected [of chunk "pre @ l @ [CR]" fd mem] obtain s4 where
    s4: "consume chunk (pre @ l @ [CR]) True (started fd mem) = Some s4"
    "emitted s4 = expected (pre @ l @ [CR])" by blast
  have 1: "emitted s1 = map (\<lambda>p. (None, False, strip_cr p)) (terminated_lines pre) @
                          (None, False, l) # emitted s3"
    using s1(2) s3(2) pre [of "l @ CR # LF # rest"] expected_crlf_line [OF assms(3,4), of rest]
    by simp
  have 2: "emitted s2 = map (\<lambda>p. (None, False, strip_cr p)) (terminated_lines pre) @
                          (None, False, if l \<noteq> [] \<and> last l = CR then butlast l else l) # emitted s3"
    using s2(2) s3(2) pre [of "l @ LF # rest"] expected_lf_line [OF assms(3) short, of rest]
    by (simp add: strip_cr_def)
  have 4: "emitted s4 = map (\<lambda>p. (None, False, strip_cr p)) (terminated_lines pre) @
                          [(None, False, l), (None, True, [])]"
    using s4(2) pre [of "l @ [CR]"] expected_last [OF cr] by simp
  from s1(1) s2(1) s3(1) s4(1) 1 2 4 show ?thesis by blast
qed

text \<open>The line \<open>a\<close> CR \<open>b\<close>, after a line \<open>x\<close>, ended in the three ways.\<close>

theorem carriage_return_stripping_witness:
  "\<exists>s1 s2 s4.
     consume (\<lambda>_. 1) (''x'' @ [LF] @ ''a'' @ [CR] @ ''b'' @ [CR, LF]) True (started 3 (\<lambda>_. CHR 0x00))
       = Some s1 \<and>
     consume (\<lambda>_. 1) (''x'' @ [LF] @ ''a'' @ [CR] @ ''b'' @ [LF]) True (started 3 (\<lambda>_. CHR 0x00))
       = Some s2 \<and>
     consume (\<lambda>_. 1) (''x'' @ [LF] @ ''a'' @ [CR] @ ''b'' @ [CR]) True (started 3 (\<lambda>_. CHR 0x00))
       = Some s4 \<and>
     emitted s1 = [(None, False, ''x''), (None, False, ''a'' @ [CR] @ ''b''), (None, True, [])] \<and>
     emitted s2 = emitted s1 \<and>
     emitted s4 = emitted s1"
proof -
  let ?init = "started 3 (\<lambda>_. CHR 0x00)"
  let ?pre = "''x'' @ [LF]"
  let ?l = "''a'' @ [CR] @ ''b''"
  have t: "terminated_lines ?pre = [''x'']" by code_simp
  have c: "trailing_chunk ?pre = []" by code_simp
  have t0: "terminated_lines [] = []" by (simp add: terminated_lines.simps)
  have c0: "trailing_chunk [] = []" by (simp add: trailing_chunk.simps)
  have h2: "\<forall>p \<in> set (terminated_lines ?pre). length p < BUF_SIZE"
    unfolding t by (simp add: BUF_SIZE_def)
  have h20: "\<forall>p \<in> set (terminated_lines []). length p < BUF_SIZE" unfolding t0 by simp
  have h3: "LF \<notin> set ?l" by (simp add: LF_def CR_def)
  have h4: "length ?l + 1 < BUF_SIZE" by (simp add: BUF_SIZE_def)
  have e3: "LF \<notin> set []" and e4: "length [] + 1 < BUF_SIZE" by (simp_all add: BUF_SIZE_def)
  from carriage_return_stripping [OF c h2 h3 h4, of "\<lambda>_. 1" "[]" 3 "\<lambda>_. CHR 0x00"]
  obtain s1 s2 s3 s4 where
    1: "consume (\<lambda>_. 1) (?pre @ ?l @ [CR, LF]) True ?init = Some s1"
    and 2: "consume (\<lambda>_. 1) (?pre @ ?l @ [LF]) True ?init = Some s2"
    and 3: "consume (\<lambda>_. 1) [] True ?init = Some s3"
    and 4: "consume (\<lambda>_. 1) (?pre @ ?l @ [CR]) True ?init = Some s4"
    and 5: "emitted s1 = map (\<lambda>p. (None, False, strip_cr p)) (terminated_lines ?pre) @
                          (None, False, ?l) # emitted s3"
    and 6: "emitted s2 = map (\<lambda>p. (None, False, strip_cr p)) (terminated_lines ?pre) @
                          (None, False, if ?l \<noteq> [] \<and> last ?l = CR then butlast ?l else ?l) # emitted s3"
    and 7: "emitted s4 = map (\<lambda>p. (None, False, strip_cr p)) (terminated_lines ?pre) @
                          [(None, False, ?l), (None, True, [])]"
    by (elim exE conjE)
  from consume_expected [of "\<lambda>_. 1" "[]" 3 "\<lambda>_. CHR 0x00"] 3 expected_last [OF e3]
  have 8: "emitted s3 = [(None, True, [])]" by (auto simp: BUF_SIZE_def)
  have sx: "strip_cr ''x'' = ''x''" by (simp add: strip_cr_def CR_def)
  from 5 8 have 9: "emitted s1 = [(None, False, ''x''), (None, False, ?l), (None, True, [])]"
    unfolding t by (simp add: sx)
  from 6 8 have 10: "emitted s2 = [(None, False, ''x''), (None, False, ?l), (None, True, [])]"
    unfolding t by (simp add: sx CR_def)
  from 7 have 11: "emitted s4 = [(None, False, ''x''), (None, False, ?l), (None, True, [])]"
    unfolding t by (simp add: sx)
  from 1 2 4 9 10 11 show ?thesis by auto
qed

text \<open>
  Claim C4 as it is stated fails for a carriage return that is the last byte of a file
  without a final terminator: for the file \<open>abc\<close> CR the reader emits the line \<open>abc\<close>,
  not \<open>abc\<close> CR.
\<close>

theorem trailing_cr_counterexample:
  "map_option emitted (consume bytewise (''abc'' @ [CR]) True (started 3 zeroed))
   = Some [(None, False, ''abc''), (None, True, [])]"
proof -
  have "LF \<notin> set (''abc'' @ [CR])" by (simp add: LF_def CR_def)
  moreover have "length (''abc'' @ [CR]) < BUF_SIZE" by (simp add: BUF_SIZE_def)
  ultimately have "expected (''abc'' @ [CR]) = [(None, False, ''abc''), (None, True, [])]"
    using expected_last [of "''abc'' @ [CR]"] by (simp add: strip_cr_def)
  then show ?thesis
    using consume_expected [of bytewise "''abc'' @ [CR]" 3 zeroed]
    by auto
qed

end
